theory Spec2Isabelle
  imports Main "HOL-Library.Multiset"
begin

section \<open>Python strings\<close>

text \<open>
  A Python \<open>str\<close> is a sequence of code points. The model covers the strings whose code
  points are below 256: a \<^typ>\<open>char\<close> stands for one code point, so \<^const>\<open>length\<close> counts
  what Python's \<open>len\<close> counts, and the two non-ASCII letters of the source's literals
  (the degree sign U+00B0 in the serial-number label and the o-acute U+00F3 in the creation label)
  are one \<^typ>\<open>char\<close> each.
\<close>

abbreviation LF :: char where "LF \<equiv> CHR 0x0A"
abbreviation CR :: char where "CR \<equiv> CHR 0x0D"

text \<open>\<open>str.isspace\<close> on one code point below 256: the characters \<open>str.strip()\<close> removes.\<close>

definition is_space :: "char \<Rightarrow> bool" where
  "is_space c = (c \<in> set [CHR 0x09, LF, CHR 0x0B, CHR 0x0C, CR, CHR 0x1C, CHR 0x1D,
                           CHR 0x1E, CHR 0x1F, CHR 0x20, CHR 0x85, CHR 0xA0])"

definition lstrip :: "string \<Rightarrow> string" where
  "lstrip s = dropWhile is_space s"

definition rstrip :: "string \<Rightarrow> string" where
  "rstrip s = rev (dropWhile is_space (rev s))"

text \<open>\<open>s.strip()\<close>\<close>

definition strip :: "string \<Rightarrow> string" where
  "strip s = rstrip (lstrip s)"

text \<open>\<open>s.split(c)\<close> for a one-character separator: every occurrence splits, empty pieces stay.\<close>

fun split_on :: "char \<Rightarrow> string \<Rightarrow> string list" where
  "split_on c [] = [[]]"
| "split_on c (x # xs) =
     (if x = c then [] # split_on c xs
      else (case split_on c xs of [] \<Rightarrow> [[x]] | w # ws \<Rightarrow> (x # w) # ws))"

text \<open>
  \<open>s.split(c, 1)\<close> on a string that contains \<open>c\<close> gives two pieces: the text before the
  first \<open>c\<close> and the text after it.
\<close>

definition before_first :: "char \<Rightarrow> string \<Rightarrow> string" where
  "before_first c s = takeWhile (\<lambda>x. x \<noteq> c) s"

definition after_first :: "char \<Rightarrow> string \<Rightarrow> string" where
  "after_first c s = tl (dropWhile (\<lambda>x. x \<noteq> c) s)"

text \<open>
  \<open>str.lower\<close> below code point 256: the upper-case letters are A..Z, U+00C0..U+00D6 and
  U+00D8..U+00DE, each 32 below its lower-case letter.
\<close>

definition lower_char :: "char \<Rightarrow> char" where
  "lower_char c =
     (let n = (of_char c :: nat)
      in if (65 \<le> n \<and> n \<le> 90) \<or> (192 \<le> n \<and> n \<le> 214) \<or> (216 \<le> n \<and> n \<le> 222)
         then char_of (n + 32) else c)"

definition lower :: "string \<Rightarrow> string" where
  "lower s = map lower_char s"

text \<open>\<open>s.startswith(p)\<close>\<close>

definition startswith :: "string \<Rightarrow> string \<Rightarrow> bool" where
  "startswith s p = (take (length p) s = p)"

text \<open>
  \<open>str.splitlines()\<close>: the line boundaries below code point 256 are LF, CR, CR LF, VT, FF,
  FS, GS, RS and NEL; a boundary at the very end opens no further line.
\<close>

definition is_linebreak :: "char \<Rightarrow> bool" where
  "is_linebreak c = (c \<in> set [LF, CR, CHR 0x0B, CHR 0x0C, CHR 0x1C, CHR 0x1D, CHR 0x1E, CHR 0x85])"

fun splitlines_from :: "string \<Rightarrow> string \<Rightarrow> string list" where
  "splitlines_from cur [] = (if cur = [] then [] else [rev cur])"
| "splitlines_from cur [c] = (if is_linebreak c then [rev cur] else [rev (c # cur)])"
| "splitlines_from cur (c # d # cs) =
     (if c = CR \<and> d = LF then rev cur # splitlines_from [] cs
      else if is_linebreak c then rev cur # splitlines_from [] (d # cs)
      else splitlines_from (c # cur) (d # cs))"

definition splitlines :: "string \<Rightarrow> string list" where
  "splitlines s = splitlines_from [] s"

subsection \<open>\<open>int(s)\<close>\<close>

text \<open>
  \<open>int\<close> on a string, base 10: surrounding whitespace is dropped, one sign is allowed, and
  the rest is decimal digits with single underscores between digits. Leading zeros are
  accepted. \<open>None\<close> stands for the \<open>ValueError\<close>. Below code point 256 the decimal digits
  are 0..9 only. The whitespace \<open>int\<close> drops is that of \<open>str.strip()\<close> without the four
  separators U+001C..U+001F. (The interpreter's optional cap on the number of digits is
  not modelled.)
\<close>

definition is_int_space :: "char \<Rightarrow> bool" where
  "is_int_space c = (c \<in> set [CHR 0x09, LF, CHR 0x0B, CHR 0x0C, CR, CHR 0x20, CHR 0x85, CHR 0xA0])"

definition int_strip :: "string \<Rightarrow> string" where
  "int_strip s = rev (dropWhile is_int_space (rev (dropWhile is_int_space s)))"

definition is_digit :: "char \<Rightarrow> bool" where
  "is_digit c = (48 \<le> (of_char c :: nat) \<and> (of_char c :: nat) \<le> 57)"

definition digit_val :: "char \<Rightarrow> nat" where
  "digit_val c = of_char c - 48"

fun int_digits :: "bool \<Rightarrow> int \<Rightarrow> string \<Rightarrow> int option" where
  "int_digits after_digit acc [] = (if after_digit then Some acc else None)"
| "int_digits after_digit acc (c # cs) =
     (if is_digit c then int_digits True (acc * 10 + int (digit_val c)) cs
      else if c = CHR ''_'' \<and> after_digit then int_digits False acc cs
      else None)"

definition py_int :: "string \<Rightarrow> int option" where
  "py_int s =
     (case int_strip s of
        [] \<Rightarrow> None
      | c # cs \<Rightarrow>
          if c = CHR ''-'' then map_option uminus (int_digits False 0 cs)
          else if c = CHR ''+'' then int_digits False 0 cs
          else int_digits False 0 (c # cs))"

section \<open>The payload decoder\<close>

record scan_record =
  descripcion :: string
  nro_serie :: int
  id_producto :: string
  lote :: string
  creacion :: string
  vencimiento :: string

text \<open>
  Every way the source can stop with an exception. The four \<open>ValueError\<close>s of
  \<open>parse_qr_payload\<close> carry the names the specification gives them:
  \<^item> \<open>UnrecognizedFormat\<close>: the final \<open>raise\<close>;
  \<^item> \<open>MissingFields\<close>: the \<open>raise\<close> of the key/value format, with the missing keys;
  \<^item> \<open>InvalidSerial\<close>: the \<open>ValueError\<close> of \<open>int(...)\<close>, with the text it was given;
  \<^item> \<open>LegacyFieldsMissing\<close>: the \<open>raise\<close> of the old format.
  \<open>IndexError\<close> is what \<open>l.split(":", 1)[1]\<close> raises on a line without a colon, and
  \<open>OverflowError\<close> is what the sqlite3 module raises when it binds an integer outside the
  signed 64-bit range.
\<close>

datatype error =
    UnrecognizedFormat
  | MissingFields "string list"
  | InvalidSerial string
  | LegacyFieldsMissing
  | IndexError
  | OverflowError

subsection \<open>The key/value format\<close>

text \<open>The loop body: \<open>if "=" in p: k, v = p.split("=", 1); data[k.strip()] = v.strip()\<close>.\<close>

definition kv_update :: "(string \<rightharpoonup> string) \<Rightarrow> string \<Rightarrow> (string \<rightharpoonup> string)" where
  "kv_update data p =
     (if CHR ''='' \<in> set p
      then data(strip (before_first CHR ''='' p) \<mapsto> strip (after_first CHR ''='' p))
      else data)"

definition build_data :: "string list \<Rightarrow> (string \<rightharpoonup> string)" where
  "build_data parts = foldl kv_update Map.empty parts"

definition required :: "string list" where
  "required = [''NS'', ''PRD'', ''DSC'', ''LOT'', ''FEC'', ''VTO'']"

text \<open>\<open>k not in data or not data[k]\<close>\<close>

definition is_missing :: "(string \<rightharpoonup> string) \<Rightarrow> string \<Rightarrow> bool" where
  "is_missing data k = (case data k of None \<Rightarrow> True | Some v \<Rightarrow> v = [])"

text \<open>
  What the source does with \<open>data\<close> once the loop has filled it. The lookups \<open>data["DSC"]\<close>
  and so on are reached only when no required key is missing, so none raises \<open>KeyError\<close>.
\<close>

definition fields_of_data :: "(string \<rightharpoonup> string) \<Rightarrow> error + scan_record" where
  "fields_of_data data =
     (let missing = filter (is_missing data) required
      in if missing \<noteq> [] then Inl (MissingFields missing)
         else (case py_int (the (data ''NS'')) of
                 None \<Rightarrow> Inl (InvalidSerial (the (data ''NS'')))
               | Some n \<Rightarrow>
                   Inr \<lparr>descripcion = the (data ''DSC''), nro_serie = n,
                        id_producto = the (data ''PRD''), lote = the (data ''LOT''),
                        creacion = the (data ''FEC''), vencimiento = the (data ''VTO'')\<rparr>))"

text \<open>The branch for the key/value format, on the stripped input.\<close>

definition parse_primary :: "string \<Rightarrow> error + scan_record" where
  "parse_primary raw = fields_of_data (build_data (split_on CHR ''|'' raw))"

subsection \<open>The old format\<close>

text \<open>\<open>lines = [l.strip() for l in raw.splitlines() if l.strip()]\<close>\<close>

definition legacy_lines :: "string \<Rightarrow> string list" where
  "legacy_lines raw = map strip (filter (\<lambda>l. strip l \<noteq> []) (splitlines raw))"

text \<open>
  \<open>pick(prefix)\<close>: the first line that starts with the prefix, compared in lower case,
  decides. \<open>l.split(":", 1)[1]\<close> raises \<open>IndexError\<close> when that line has no colon.
  \<open>Inr None\<close> is the \<open>return None\<close> after the loop.
\<close>

fun pick :: "string list \<Rightarrow> string \<Rightarrow> error + string option" where
  "pick [] prefix = Inr None"
| "pick (l # ls) prefix =
     (if startswith (lower l) (lower prefix)
      then (if CHR '':'' \<in> set l then Inr (Some (strip (after_first CHR '':'' l)))
            else Inl IndexError)
      else pick ls prefix)"

text \<open>Truth of a \<open>pick\<close> result: \<open>None\<close> and the empty string are false.\<close>

definition truthy :: "string option \<Rightarrow> bool" where
  "truthy v = (case v of None \<Rightarrow> False | Some s \<Rightarrow> s \<noteq> [])"

text \<open>\<open>a or b\<close>: \<open>b\<close> is evaluated only when \<open>a\<close> is false; an exception in \<open>a\<close> wins.\<close>

definition or_else :: "error + string option \<Rightarrow> error + string option \<Rightarrow> error + string option" where
  "or_else a b = (case a of Inl e \<Rightarrow> Inl e | Inr v \<Rightarrow> if truthy v then Inr v else b)"

definition known_prefixes :: "string list" where
  "known_prefixes =
     [''num de serie'', ''n de serie'', ''n'' @ [CHR 0xB0] @ '' de serie'', ''id producto'',
      ''lote'', ''creacion'', ''creaci'' @ [CHR 0xF3] @ ''n'', ''vencimiento'']"

text \<open>\<open>s.startswith(t)\<close> for a tuple \<open>t\<close> of prefixes.\<close>

definition startswith_any :: "string \<Rightarrow> string list \<Rightarrow> bool" where
  "startswith_any s ps = list_ex (startswith s) ps"

subsubsection \<open>\<open>datetime.strptime(s, "%d/%m/%y")\<close>\<close>

text \<open>
  The format compiles to the regular expression
  \<^verbatim>\<open>(?P<d>3[0-1]|[1-2]\d|0[1-9]|[1-9]| [1-9])/(?P<m>1[0-2]|0[1-9]|[1-9])/(?P<y>\d\d)\<close>,
  which has to match the whole string. No alternative contains a slash, so a match
  splits the text at its slashes into exactly three pieces, one per group. Years 00..68
  are 2000..2068 and 69..99 are 1969..1999; a day the month does not have is refused.
  \<open>None\<close> stands for the \<open>ValueError\<close>.
\<close>

definition nonzero_digit :: "char \<Rightarrow> bool" where
  "nonzero_digit c = (is_digit c \<and> c \<noteq> CHR ''0'')"

fun parse_day :: "string \<Rightarrow> nat option" where
  "parse_day [a] = (if nonzero_digit a then Some (digit_val a) else None)"
| "parse_day [a, b] =
     (if a = CHR ''3'' \<and> (b = CHR ''0'' \<or> b = CHR ''1'') then Some (30 + digit_val b)
      else if (a = CHR ''1'' \<or> a = CHR ''2'') \<and> is_digit b then Some (10 * digit_val a + digit_val b)
      else if (a = CHR ''0'' \<or> a = CHR '' '') \<and> nonzero_digit b then Some (digit_val b)
      else None)"
| "parse_day _ = None"

fun parse_month :: "string \<Rightarrow> nat option" where
  "parse_month [a] = (if nonzero_digit a then Some (digit_val a) else None)"
| "parse_month [a, b] =
     (if a = CHR ''1'' \<and> (b = CHR ''0'' \<or> b = CHR ''1'' \<or> b = CHR ''2'') then Some (10 + digit_val b)
      else if a = CHR ''0'' \<and> nonzero_digit b then Some (digit_val b)
      else None)"
| "parse_month _ = None"

fun parse_year2 :: "string \<Rightarrow> nat option" where
  "parse_year2 [a, b] =
     (if is_digit a \<and> is_digit b
      then (let y = 10 * digit_val a + digit_val b in Some (if y \<le> 68 then 2000 + y else 1900 + y))
      else None)"
| "parse_year2 _ = None"

definition is_leap :: "nat \<Rightarrow> bool" where
  "is_leap y = (y mod 4 = 0 \<and> (y mod 100 \<noteq> 0 \<or> y mod 400 = 0))"

definition days_in_month :: "nat \<Rightarrow> nat \<Rightarrow> nat" where
  "days_in_month y m =
     (if m = 2 then (if is_leap y then 29 else 28)
      else if m = 4 \<or> m = 6 \<or> m = 9 \<or> m = 11 then 30 else 31)"

text \<open>The result is (year, month, day).\<close>

definition strptime_dmy :: "string \<Rightarrow> (nat \<times> nat \<times> nat) option" where
  "strptime_dmy s =
     (case split_on CHR ''/'' s of
        [ds, ms, ys] \<Rightarrow>
          (case (parse_day ds, parse_month ms, parse_year2 ys) of
             (Some d, Some m, Some y) \<Rightarrow> if d \<le> days_in_month y m then Some (y, m, d) else None
           | _ \<Rightarrow> None)
      | _ \<Rightarrow> None)"

definition digit_char :: "nat \<Rightarrow> char" where
  "digit_char n = char_of (48 + n)"

text \<open>\<open>"%02d"\<close> of a number below 100.\<close>

definition two_digits :: "nat \<Rightarrow> string" where
  "two_digits n = [digit_char (n div 10), digit_char (n mod 10)]"

text \<open>\<open>date.isoformat()\<close>: \<open>"%04d-%02d-%02d"\<close>, for a year below 10000.\<close>

definition isoformat :: "nat \<Rightarrow> nat \<Rightarrow> nat \<Rightarrow> string" where
  "isoformat y m d =
     [digit_char (y div 1000), digit_char (y div 100 mod 10), digit_char (y div 10 mod 10),
      digit_char (y mod 10)] @ CHR ''-'' # two_digits m @ CHR ''-'' # two_digits d"

text \<open>The bare \<open>except\<close> turns every failure of \<open>strptime\<close> into \<open>return s\<close>.\<close>

definition normalize_date :: "string \<Rightarrow> string" where
  "normalize_date s0 =
     (let s = strip s0
      in if CHR ''/'' \<in> set s
         then (case strptime_dmy s of Some (y, m, d) \<Rightarrow> isoformat y m d | None \<Rightarrow> s)
         else s)"

text \<open>
  The branch for the old format, on the stripped input. The five extractions run in the
  source's order and the first exception ends the call.
\<close>

definition legacy_ns :: "string list \<Rightarrow> error + string option" where
  "legacy_ns lines =
     or_else (or_else (pick lines ''Num de serie'') (pick lines ''N de serie''))
             (pick lines (''N'' @ [CHR 0xB0] @ '' de serie''))"

definition legacy_cre :: "string list \<Rightarrow> error + string option" where
  "legacy_cre lines =
     or_else (pick lines ''Creacion'') (pick lines (''Creaci'' @ [CHR 0xF3] @ ''n''))"

definition parse_legacy :: "string \<Rightarrow> error + scan_record" where
  "parse_legacy raw =
     (let lines = legacy_lines raw in
      (case legacy_ns lines of Inl e \<Rightarrow> Inl e | Inr ns \<Rightarrow>
      (case pick lines ''ID producto'' of Inl e \<Rightarrow> Inl e | Inr prd \<Rightarrow>
      (case pick lines ''Lote'' of Inl e \<Rightarrow> Inl e | Inr lot \<Rightarrow>
      (case legacy_cre lines of Inl e \<Rightarrow> Inl e | Inr cre \<Rightarrow>
      (case pick lines ''Vencimiento'' of Inl e \<Rightarrow> Inl e | Inr vto \<Rightarrow>
      (let desc_candidates = filter (\<lambda>l. \<not> startswith_any (lower l) known_prefixes) lines;
           desc = (case desc_candidates of [] \<Rightarrow> [] | d # _ \<Rightarrow> d)
       in if \<not> (truthy ns \<and> truthy prd \<and> truthy lot \<and> truthy cre \<and> truthy vto) \<or> desc = []
          then Inl LegacyFieldsMissing
          else (case py_int (the ns) of
                  None \<Rightarrow> Inl (InvalidSerial (the ns))
                | Some n \<Rightarrow>
                    Inr \<lparr>descripcion = desc, nro_serie = n, id_producto = the prd,
                         lote = the lot, creacion = normalize_date (the cre),
                         vencimiento = normalize_date (the vto)\<rparr>))))))))"

subsection \<open>\<open>parse_qr_payload\<close>\<close>

definition parse_qr_payload :: "string \<Rightarrow> error + scan_record" where
  "parse_qr_payload raw0 =
     (let raw = strip raw0
      in if CHR ''|'' \<in> set raw \<and> CHR ''='' \<in> set raw then parse_primary raw
         else if LF \<in> set raw then parse_legacy raw
         else Inl UnrecognizedFormat)"

section \<open>The record store\<close>

text \<open>
  The table \<open>pallet_scans\<close>: each row is its rowid and its six columns. A new row gets
  one more than the largest rowid of the table (1 in an empty table); rows are never
  updated or deleted. \<open>UNIQUE(id_producto, nro_serie, lote)\<close> makes an \<open>INSERT\<close> of a
  present triple raise \<open>sqlite3.IntegrityError\<close>, which \<open>save_scan\<close> turns into \<open>"DUP"\<close>.
\<close>

type_synonym row = "nat \<times> scan_record"
type_synonym store = "row list"

datatype status = OK | DUP

text \<open>\<open>CREATE TABLE IF NOT EXISTS\<close>: the table of an existing database file is kept.\<close>

definition init_db :: "store option \<Rightarrow> store" where
  "init_db db_file = (case db_file of None \<Rightarrow> [] | Some conn \<Rightarrow> conn)"

definition same_key :: "scan_record \<Rightarrow> scan_record \<Rightarrow> bool" where
  "same_key a b =
     (id_producto a = id_producto b \<and> nro_serie a = nro_serie b \<and> lote a = lote b)"

definition key_present :: "store \<Rightarrow> scan_record \<Rightarrow> bool" where
  "key_present conn data = list_ex (\<lambda>r. same_key (snd r) data) conn"

definition max_rowid :: "store \<Rightarrow> nat" where
  "max_rowid conn = foldr (\<lambda>r m. max (fst r) m) conn 0"

text \<open>An \<open>INTEGER\<close> column holds a signed 64-bit value.\<close>

definition in_int64 :: "int \<Rightarrow> bool" where
  "in_int64 n = (- (2 ^ 63) \<le> n \<and> n < 2 ^ 63)"

text \<open>
  \<open>save_scan\<close> returns the state (\<open>"OK"\<close> or \<open>"DUP"\<close>) and the table after the call; the
  message for the operator is left out. An exception of the decoder passes through.
\<close>

definition save_scan :: "store \<Rightarrow> string \<Rightarrow> error + (status \<times> store)" where
  "save_scan conn raw_payload =
     (case parse_qr_payload raw_payload of
        Inl e \<Rightarrow> Inl e
      | Inr data \<Rightarrow>
          if \<not> in_int64 (nro_serie data) then Inl OverflowError
          else if key_present conn data then Inr (DUP, conn)
          else Inr (OK, conn @ [(max_rowid conn + 1, data)]))"

text \<open>
  \<open>ORDER BY rowid DESC LIMIT ?\<close>: the sqlite3 module raises \<open>OverflowError\<close> when it binds
  a limit outside the signed 64-bit range, as it does for \<open>nro_serie\<close>; a negative limit is
  no limit.
\<close>

definition latest_rows :: "store \<Rightarrow> int \<Rightarrow> error + row list" where
  "latest_rows conn limit =
     (if \<not> in_int64 limit then Inl OverflowError
      else (let ordered = rev (sort_key fst conn)
            in Inr (if limit < 0 then ordered else take (nat limit) ordered)))"

text \<open>The \<open>SELECT\<close> returns the six columns of each row.\<close>

definition fetch_latest_scans :: "store \<Rightarrow> int \<Rightarrow> error + scan_record list" where
  "fetch_latest_scans conn limit =
     (case latest_rows conn limit of Inl e \<Rightarrow> Inl e | Inr rows \<Rightarrow> Inr (map snd rows))"

text \<open>
  \<open>on_scan_return\<close>, as far as the table goes: blank input is ignored, and an exception
  of \<open>save_scan\<close> is shown to the operator and leaves the table as it was.
\<close>

definition on_scan_return :: "store \<Rightarrow> string \<Rightarrow> store" where
  "on_scan_return conn scanned =
     (let raw = strip scanned
      in if raw = [] then conn
         else (case save_scan conn raw of Inl e \<Rightarrow> conn | Inr res \<Rightarrow> snd res))"

text \<open>The table after a sequence of scans.\<close>

definition scan_all :: "store \<Rightarrow> string list \<Rightarrow> store" where
  "scan_all conn texts = foldl on_scan_return conn texts"

section \<open>The label generator\<close>

text \<open>\<open>s.replace(a, b)\<close> for one-character \<open>a\<close> and \<open>b\<close>.\<close>

definition replace_char :: "char \<Rightarrow> char \<Rightarrow> string \<Rightarrow> string" where
  "replace_char a b s = map (\<lambda>x. if x = a then b else x) s"

text \<open>
  \<open>desc_clean\<close> of \<open>generar_y_imprimir_qrs\<close>: the three replacements, \<open>strip\<close>, and then the
  cut to 90 characters.
\<close>

definition desc_clean :: "string \<Rightarrow> string" where
  "desc_clean desc =
     (let d = strip (replace_char CHR ''='' CHR ''-''
                      (replace_char CHR ''|'' CHR ''/'' (replace_char LF CHR '' '' desc)))
      in if length d > 90 then take 90 d else d)"

fun decimal :: "nat \<Rightarrow> string" where
  "decimal n = (if n < 10 then [digit_char n] else decimal (n div 10) @ [digit_char (n mod 10)])"

text \<open>\<open>f"{n:06d}"\<close>: zeros fill up to six characters, after the sign if there is one.\<close>

definition format_06d :: "int \<Rightarrow> string" where
  "format_06d n =
     (if n < 0
      then CHR ''-'' # replicate (5 - length (decimal (nat (- n)))) CHR ''0'' @ decimal (nat (- n))
      else replicate (6 - length (decimal (nat n))) CHR ''0'' @ decimal (nat n))"

text \<open>
  A date is (year, month, day). \<open>fecha_actual\<close> is \<open>datetime.now()\<close>, of which the payload
  uses the date only. \<open>strftime("%Y-%m-%d")\<close> of a date with a four-digit year is its ISO
  text, and \<open>strftime("%d%m%y")\<close> is day, month and the last two digits of the year.
\<close>

type_synonym date = "nat \<times> nat \<times> nat"

definition strftime_Ymd :: "date \<Rightarrow> string" where
  "strftime_Ymd f = (case f of (y, m, d) \<Rightarrow> isoformat y m d)"

definition strftime_dmy :: "date \<Rightarrow> string" where
  "strftime_dmy f = (case f of (y, m, d) \<Rightarrow> two_digits d @ two_digits m @ two_digits (y mod 100))"

text \<open>
  \<open>fecha_actual + relativedelta(months=6)\<close>: six months later, on the last day of that
  month when it has no such day.
\<close>

definition plus_six_months :: "date \<Rightarrow> date" where
  "plus_six_months f =
     (case f of (y, m, d) \<Rightarrow>
        (let y' = (if m + 6 > 12 then y + 1 else y);
             m' = (if m + 6 > 12 then m + 6 - 12 else m + 6)
         in (y', m', min d (days_in_month y' m'))))"

text \<open>
  \<open>payload_qr\<close> for one serial number: \<open>id_producto\<close> is the text \<open>str\<close> gives for the
  catalogue's value.
\<close>

definition payload_qr :: "string \<Rightarrow> string \<Rightarrow> int \<Rightarrow> date \<Rightarrow> string" where
  "payload_qr id_prod desc nro fecha_actual =
     ''NS='' @ format_06d nro @ ''|PRD='' @ id_prod @ ''|DSC='' @ desc_clean desc
     @ ''|LOT='' @ strftime_dmy fecha_actual @ ''|FEC='' @ strftime_Ymd fecha_actual
     @ ''|VTO='' @ strftime_Ymd (plus_six_months fecha_actual)"

text \<open>A calendar date with a four-digit year, and room for the year after it.\<close>

definition valid_date :: "date \<Rightarrow> bool" where
  "valid_date f =
     (case f of (y, m, d) \<Rightarrow>
        1000 \<le> y \<and> y < 9999 \<and> 1 \<le> m \<and> m \<le> 12 \<and> 1 \<le> d \<and> d \<le> days_in_month y m)"

section \<open>Notions the properties are stated with\<close>

text \<open>
  The text that \<open>parse_qr_payload\<close> hands to \<open>int\<close>: \<open>data["NS"]\<close> in the key/value format,
  \<open>ns\<close> in the old format.
\<close>

definition serial_text :: "string \<Rightarrow> string option" where
  "serial_text raw0 =
     (let raw = strip raw0
      in if CHR ''|'' \<in> set raw \<and> CHR ''='' \<in> set raw
         then build_data (split_on CHR ''|'' raw) ''NS''
         else if LF \<in> set raw
         then (case legacy_ns (legacy_lines raw) of Inl e \<Rightarrow> None | Inr ns \<Rightarrow> ns)
         else None)"

text \<open>The rowids grow along the table: its rows stand in the order of their insertion.\<close>

definition rowids_increasing :: "store \<Rightarrow> bool" where
  "rowids_increasing conn = sorted_wrt (<) (map fst conn)"

text \<open>The year \<open>strptime\<close> reads from the two digits of \<open>%y\<close>.\<close>

definition full_year :: "nat \<Rightarrow> nat" where
  "full_year yy = (if yy \<le> 68 then 2000 + yy else 1900 + yy)"

text \<open>
  The key/value format in the specification's words. A segment with an equals sign is
  split once at its first equals sign into a key and a value, both trimmed.
\<close>

definition seg_key :: "string \<Rightarrow> string" where
  "seg_key p = strip (before_first CHR ''='' p)"

definition seg_value :: "string \<Rightarrow> string" where
  "seg_value p = strip (after_first CHR ''='' p)"

text \<open>The segments that carry the key \<open>k\<close>, in their order.\<close>

definition occurrences :: "string list \<Rightarrow> string \<Rightarrow> string list" where
  "occurrences parts k = filter (\<lambda>p. CHR ''='' \<in> set p \<and> seg_key p = k) parts"

text \<open>The value of a key: that of its last occurrence, if it occurs at all.\<close>

definition last_value :: "string list \<Rightarrow> string \<Rightarrow> string option" where
  "last_value parts k =
     (if occurrences parts k = [] then None
      else Some (seg_value (last (occurrences parts k))))"

text \<open>A key is missing when it does not occur or its value is empty.\<close>

definition absent_or_empty :: "string list \<Rightarrow> string \<Rightarrow> bool" where
  "absent_or_empty parts k = (last_value parts k = None \<or> last_value parts k = Some [])"

text \<open>What a segment contributes: nothing without an equals sign, else its key and value.\<close>

definition seg_kv :: "string \<Rightarrow> (string \<times> string) option" where
  "seg_kv p = (if CHR ''='' \<in> set p then Some (seg_key p, seg_value p) else None)"

text \<open>The number of scans of a sequence for which \<open>save_scan\<close> returned \<open>"OK"\<close>.\<close>

fun successful_inserts :: "store \<Rightarrow> string list \<Rightarrow> nat" where
  "successful_inserts conn [] = 0"
| "successful_inserts conn (t # ts) =
     (case save_scan conn (strip t) of Inr (OK, conn') \<Rightarrow> 1 | _ \<Rightarrow> 0)
     + successful_inserts (on_scan_return conn t) ts"

section \<open>Facts about the string primitives\<close>

lemma rstrip_Nil [simp]: "rstrip [] = []"
  by (simp add: rstrip_def)

lemma lstrip_Nil [simp]: "lstrip [] = []"
  by (simp add: lstrip_def)

lemma strip_Nil [simp]: "strip [] = []"
  by (simp add: strip_def)

lemma not_space_punct [simp]:
  "\<not> is_space CHR ''|''" "\<not> is_space CHR ''=''" "\<not> is_space CHR '':''"
  "\<not> is_space CHR ''/''" "\<not> is_space CHR ''-''" "is_space LF"
  by (simp_all add: is_space_def)

lemma rstrip_append_space: "\<forall>c\<in>set b. is_space c \<Longrightarrow> rstrip (s @ b) = rstrip s"
  by (simp add: rstrip_def dropWhile_append)

lemma lstrip_append_space: "\<forall>c\<in>set a. is_space c \<Longrightarrow> lstrip (a @ s) = lstrip s"
  by (simp add: lstrip_def dropWhile_append)

lemma rstrip_eq_Nil: "rstrip s = [] \<longleftrightarrow> (\<forall>c\<in>set s. is_space c)"
  by (simp add: rstrip_def)

lemma lstrip_eq_Nil: "lstrip s = [] \<longleftrightarrow> (\<forall>c\<in>set s. is_space c)"
  by (simp add: lstrip_def)

lemma rstrip_Cons:
  "rstrip (x # xs) = (if \<forall>c\<in>set (x # xs). is_space c then [] else x # rstrip xs)"
  by (auto simp: rstrip_def dropWhile_append)

lemma rstrip_append_nonspace:
  "\<not> (\<forall>c\<in>set t. is_space c) \<Longrightarrow> rstrip (s @ t) = s @ rstrip t"
  by (induction s) (auto simp: rstrip_Cons)

lemma lstrip_id: "s = [] \<or> \<not> is_space (hd s) \<Longrightarrow> lstrip s = s"
  by (cases s) (auto simp: lstrip_def)

lemma rstrip_id: "s = [] \<or> \<not> is_space (last s) \<Longrightarrow> rstrip s = s"
  by (cases s rule: rev_cases) (auto simp: rstrip_def)

lemma hd_lstrip: "lstrip s \<noteq> [] \<Longrightarrow> \<not> is_space (hd (lstrip s))"
  unfolding lstrip_def using hd_dropWhile by blast

lemma last_rstrip: "rstrip s \<noteq> [] \<Longrightarrow> \<not> is_space (last (rstrip s))"
  unfolding rstrip_def by (metis hd_dropWhile last_rev rev_is_Nil_conv)

lemma hd_rstrip: "rstrip s \<noteq> [] \<Longrightarrow> hd (rstrip s) = hd s"
  by (cases s) (auto simp: rstrip_Cons split: if_splits)

lemma strip_ends:
  "strip s \<noteq> [] \<Longrightarrow> \<not> is_space (hd (strip s)) \<and> \<not> is_space (last (strip s))"
  unfolding strip_def
  by (metis hd_lstrip hd_rstrip last_rstrip rstrip_Nil)

lemma strip_id: "s = [] \<or> (\<not> is_space (hd s) \<and> \<not> is_space (last s)) \<Longrightarrow> strip s = s"
  by (auto simp: strip_def lstrip_id rstrip_id)

lemma strip_idem [simp]: "strip (strip s) = strip s"
  using strip_ends [of s] by (intro strip_id) blast

lemma int_space_is_space: "is_int_space c \<Longrightarrow> is_space c"
  by (auto simp: is_int_space_def is_space_def)

lemma int_strip_id: "strip s = s \<Longrightarrow> int_strip s = s"
proof (cases "s = []")
  case True
  then show ?thesis by (simp add: int_strip_def)
next
  case False
  assume "strip s = s"
  then have "\<not> is_space (hd s)" "\<not> is_space (last s)"
    using False strip_ends [of s] by simp_all
  then have e: "\<not> is_int_space (hd s)" "\<not> is_int_space (last s)"
    using int_space_is_space by blast+
  have "dropWhile is_int_space s = s"
    using False e(1) by (cases s) simp_all
  moreover have "dropWhile is_int_space (rev s) = rev s"
    using False e(2) by (cases s rule: rev_cases) simp_all
  ultimately show ?thesis
    by (simp add: int_strip_def)
qed

lemma set_lstrip: "\<not> is_space c \<Longrightarrow> c \<in> set (lstrip s) \<longleftrightarrow> c \<in> set s"
  by (induction s) (auto simp: lstrip_def)

lemma set_rstrip: "\<not> is_space c \<Longrightarrow> c \<in> set (rstrip s) \<longleftrightarrow> c \<in> set s"
  by (induction s) (auto simp: rstrip_Cons)

lemma set_strip: "\<not> is_space c \<Longrightarrow> c \<in> set (strip s) \<longleftrightarrow> c \<in> set s"
  by (simp add: strip_def set_lstrip set_rstrip)

lemma set_strip_subset: "set (strip s) \<subseteq> set s"
proof
  fix c assume "c \<in> set (strip s)"
  then have "c \<in> set (dropWhile is_space (rev (dropWhile is_space s)))"
    by (simp add: strip_def rstrip_def lstrip_def)
  then have "c \<in> set (rev (dropWhile is_space s))"
    by (rule set_dropWhileD)
  then have "c \<in> set (dropWhile is_space s)"
    by simp
  then show "c \<in> set s"
    by (rule set_dropWhileD)
qed

lemma strip_sandwich:
  assumes a: "\<forall>c\<in>set a. is_space c" and b: "\<forall>c\<in>set b. is_space c"
  shows "strip (a @ s @ b) = strip s"
proof -
  have 1: "lstrip (a @ s @ b) = lstrip (s @ b)"
    using a by (rule lstrip_append_space)
  show ?thesis
  proof (cases "\<forall>c\<in>set s. is_space c")
    case True
    then have "lstrip (s @ b) = []" "lstrip s = []"
      using b by (auto simp: lstrip_eq_Nil)
    then show ?thesis using 1 by (simp add: strip_def)
  next
    case False
    then have "lstrip (s @ b) = lstrip s @ b"
      by (auto simp: lstrip_def)
    then show ?thesis using 1 b by (simp add: strip_def rstrip_append_space)
  qed
qed

lemma split_on_not_Nil [simp]: "split_on c s \<noteq> []"
  by (induction s) (auto split: list.splits)

lemma split_on_Cons:
  "split_on c (x # xs) =
     (if x = c then [] # split_on c xs else (x # hd (split_on c xs)) # tl (split_on c xs))"
  by (cases "split_on c xs") simp_all

lemma split_on_absent: "c \<notin> set s \<Longrightarrow> split_on c s = [s]"
  by (induction s) auto

lemma split_on_single: "split_on c s = [w] \<Longrightarrow> c \<notin> set s \<and> w = s"
proof (induction s arbitrary: w)
  case Nil
  then show ?case by simp
next
  case (Cons x xs)
  show ?case
  proof (cases "x = c")
    case True
    then show ?thesis using Cons.prems by simp
  next
    case False
    obtain v vs where v: "split_on c xs = v # vs"
      by (cases "split_on c xs") simp_all
    with False Cons.prems have "vs = []" "w = x # v" by simp_all
    with v Cons.IH [of v] False show ?thesis by simp
  qed
qed

lemma split_on_lstrip:
  "\<not> is_space c \<Longrightarrow> split_on c (lstrip s) = lstrip (hd (split_on c s)) # tl (split_on c s)"
proof (induction s)
  case Nil
  show ?case by simp
next
  case (Cons x xs)
  show ?case
  proof (cases "is_space x")
    case True
    then have "x \<noteq> c" using Cons.prems by blast
    then show ?thesis
      using True Cons by (simp add: split_on_Cons lstrip_def del: split_on.simps)
  next
    case False
    then have "lstrip (x # xs) = x # xs" by (simp add: lstrip_def)
    moreover have "lstrip (hd (split_on c (x # xs))) = hd (split_on c (x # xs))"
      using False by (simp add: split_on_Cons lstrip_def del: split_on.simps)
    ultimately show ?thesis by (simp add: split_on_Cons del: split_on.simps)
  qed
qed

lemma split_on_rstrip:
  "\<not> is_space c \<Longrightarrow>
     split_on c (rstrip s) = butlast (split_on c s) @ [rstrip (last (split_on c s))]"
proof (induction s)
  case Nil
  show ?case by simp
next
  case (Cons x xs)
  show ?case
  proof (cases "\<forall>y\<in>set (x # xs). is_space y")
    case True
    then have "c \<notin> set (x # xs)" using Cons.prems by blast
    then have "split_on c (x # xs) = [x # xs]" by (rule split_on_absent)
    moreover have "rstrip (x # xs) = []" using True by (simp add: rstrip_eq_Nil)
    ultimately show ?thesis by simp
  next
    case False
    then have r: "rstrip (x # xs) = x # rstrip xs" by (simp add: rstrip_Cons)
    show ?thesis
    proof (cases "x = c")
      case True
      then show ?thesis using r Cons by simp
    next
      case xc: False
      obtain w ws where w: "split_on c xs = w # ws"
        by (cases "split_on c xs") simp_all
      have ih: "split_on c (rstrip xs) = butlast (w # ws) @ [rstrip (last (w # ws))]"
        using Cons w by simp
      show ?thesis
      proof (cases ws)
        case Nil
        then have "w = xs" using w split_on_single by blast
        then have "rstrip (x # w) = x # rstrip w" using r by simp
        then show ?thesis
          using r xc w Nil ih by simp
      next
        case (Cons v vs)
        then show ?thesis
          using r xc w ih by simp
      qed
    qed
  qed
qed


lemma lstrip_decomp: "s = takeWhile is_space s @ lstrip s"
  by (simp add: lstrip_def)

lemma rstrip_decomp: "s = rstrip s @ rev (takeWhile is_space (rev s))"
proof -
  have "rstrip s @ rev (takeWhile is_space (rev s))
          = rev (takeWhile is_space (rev s) @ dropWhile is_space (rev s))"
    by (simp only: rstrip_def rev_append)
  also have "\<dots> = rev (rev s)"
    by (simp only: takeWhile_dropWhile_id)
  finally show ?thesis
    by simp
qed

lemma all_space_takeWhile: "\<forall>c\<in>set (takeWhile is_space s). is_space c"
  by (auto dest: set_takeWhileD)

lemma strip_lstrip [simp]: "strip (lstrip s) = strip s"
proof -
  have "strip (takeWhile is_space s @ lstrip s @ []) = strip (lstrip s)"
    by (rule strip_sandwich) (simp_all add: all_space_takeWhile)
  then show ?thesis
    using lstrip_decomp [of s] by simp
qed

lemma strip_rstrip [simp]: "strip (rstrip s) = strip s"
proof -
  have "strip ([] @ rstrip s @ rev (takeWhile is_space (rev s))) = strip (rstrip s)"
    by (rule strip_sandwich) (simp_all add: all_space_takeWhile)
  then show ?thesis
    using rstrip_decomp [of s] by simp
qed

lemma takeWhile_dropWhile_swap:
  "\<forall>x. P x \<longrightarrow> Q x \<Longrightarrow> takeWhile Q (dropWhile P s) = dropWhile P (takeWhile Q s)"
  by (induction s) auto

lemma dropWhile_dropWhile_absorb:
  "\<forall>x. P x \<longrightarrow> Q x \<Longrightarrow> dropWhile Q (dropWhile P s) = dropWhile Q s"
  by (induction s) auto

lemma split_on_append_sep:
  "c \<notin> set a \<Longrightarrow> split_on c (a @ c # s) = a # split_on c s"
  by (induction a) auto

lemma split_on_subset: "p \<in> set (split_on c s) \<Longrightarrow> set p \<subseteq> set s"
proof (induction s arbitrary: p)
  case Nil
  then show ?case by simp
next
  case (Cons x xs)
  obtain w ws where w: "split_on c xs = w # ws"
    by (cases "split_on c xs") simp_all
  show ?case
    using Cons.prems Cons.IH [of p] Cons.IH [of w] w
    by (auto split: if_splits)
qed

section \<open>Surrounding whitespace\<close>

text \<open>
  C10. The decoder's result depends only on the input with its surrounding whitespace
  removed: decoding \<open>raw\<close> and decoding \<open>raw.strip()\<close> give the same outcome. In particular,
  when every newline of the input stands in its leading or trailing run of whitespace,
  the old format is never chosen: the input is decoded as key/value text if its core has
  both a bar and an equals sign, and is refused as unrecognised otherwise.
\<close>

theorem decode_depends_on_stripped_input:
  "parse_qr_payload raw = parse_qr_payload (strip raw) \<and>
   (\<forall>pre core post.
      raw = pre @ core @ post \<and> (\<forall>c\<in>set pre. is_space c) \<and> (\<forall>c\<in>set post. is_space c)
        \<and> LF \<notin> set core
      \<longrightarrow> parse_qr_payload raw =
            (if CHR ''|'' \<in> set core \<and> CHR ''='' \<in> set core then parse_primary (strip core)
             else Inl UnrecognizedFormat))"
proof (intro conjI allI impI)
  show "parse_qr_payload raw = parse_qr_payload (strip raw)"
    by (simp add: parse_qr_payload_def Let_def)
next
  fix pre core post
  assume h: "raw = pre @ core @ post \<and> (\<forall>c\<in>set pre. is_space c)
               \<and> (\<forall>c\<in>set post. is_space c) \<and> LF \<notin> set core"
  then have s: "strip raw = strip core"
    by (simp add: strip_sandwich)
  have "LF \<notin> set (strip core)"
    using h set_strip_subset [of core] by blast
  then show "parse_qr_payload raw =
            (if CHR ''|'' \<in> set core \<and> CHR ''='' \<in> set core then parse_primary (strip core)
             else Inl UnrecognizedFormat)"
    by (simp add: parse_qr_payload_def Let_def s set_strip)
qed

theorem decode_depends_on_stripped_input_witness:
  "parse_qr_payload ([LF] @ ''abc'' @ [LF]) = parse_qr_payload ''abc'' \<and>
   parse_qr_payload ([LF] @ ''abc'' @ [LF]) = Inl UnrecognizedFormat \<and>
   parse_legacy ([LF] @ ''abc'' @ [LF]) = Inl LegacyFieldsMissing"
proof -
  have s: "strip ([LF] @ ''abc'' @ [LF]) = ''abc''"
    by code_simp
  have l: "parse_legacy ([LF] @ ''abc'' @ [LF]) = Inl LegacyFieldsMissing"
    by code_simp
  from decode_depends_on_stripped_input [of "[LF] @ ''abc'' @ [LF]"]
  have 1: "parse_qr_payload ([LF] @ ''abc'' @ [LF]) = parse_qr_payload (strip ([LF] @ ''abc'' @ [LF]))"
    and 2: "[LF] @ ''abc'' @ [LF] = [LF] @ ''abc'' @ [LF] \<and> (\<forall>c\<in>set [LF]. is_space c)
              \<and> (\<forall>c\<in>set [LF]. is_space c) \<and> LF \<notin> set ''abc''
            \<longrightarrow> parse_qr_payload ([LF] @ ''abc'' @ [LF]) =
                (if CHR ''|'' \<in> set ''abc'' \<and> CHR ''='' \<in> set ''abc''
                 then parse_primary (strip ''abc'') else Inl UnrecognizedFormat)"
    by blast+
  from 2 have "parse_qr_payload ([LF] @ ''abc'' @ [LF]) = Inl UnrecognizedFormat"
    by simp
  with 1 s l show ?thesis by simp
qed

section \<open>The serial number\<close>

lemma int_digits_nonneg: "int_digits a acc s = Some n \<Longrightarrow> 0 \<le> acc \<Longrightarrow> 0 \<le> n"
  by (induction s arbitrary: a acc) (auto split: if_splits)

lemma py_int_sign:
  assumes "py_int s = Some n" and "take 1 (int_strip s) \<noteq> ''-''"
  shows "0 \<le> n"
  using assms
  by (auto simp: py_int_def split: list.splits if_splits dest: int_digits_nonneg)

lemma kv_update_stripped:
  "\<forall>k v. m k = Some v \<longrightarrow> strip v = v \<Longrightarrow> kv_update m p k = Some v \<Longrightarrow> strip v = v"
  by (auto simp: kv_update_def split: if_splits)

lemma foldl_kv_update_stripped:
  "\<forall>k v. m k = Some v \<longrightarrow> strip v = v \<Longrightarrow> foldl kv_update m parts k = Some v \<Longrightarrow> strip v = v"
proof (induction parts arbitrary: m)
  case Nil
  then show ?case by simp
next
  case (Cons p parts)
  have "\<forall>k v. kv_update m p k = Some v \<longrightarrow> strip v = v"
    using Cons.prems(1) kv_update_stripped by blast
  then show ?case
    using Cons.IH [of "kv_update m p"] Cons.prems(2) by simp
qed

lemma build_data_stripped: "build_data parts k = Some v \<Longrightarrow> strip v = v"
  unfolding build_data_def using foldl_kv_update_stripped [of Map.empty] by simp

lemma pick_stripped: "pick lines p = Inr (Some v) \<Longrightarrow> strip v = v"
  by (induction lines) (auto split: if_splits)

lemma or_else_stripped:
  "or_else a b = Inr (Some v) \<Longrightarrow> (a = Inr (Some v) \<or> b = Inr (Some v))"
  by (auto simp: or_else_def split: sum.splits if_splits)

lemma legacy_ns_stripped: "legacy_ns lines = Inr (Some v) \<Longrightarrow> strip v = v"
  unfolding legacy_ns_def by (blast dest: or_else_stripped pick_stripped)

lemma parse_primary_Inr:
  assumes "parse_primary raw = Inr r"
  shows "\<exists>s. build_data (split_on CHR ''|'' raw) ''NS'' = Some s \<and> s \<noteq> [] \<and> py_int s = Some (nro_serie r)"
proof -
  let ?data = "build_data (split_on CHR ''|'' raw)"
  from assms have m: "filter (is_missing ?data) required = []"
    by (auto simp: parse_primary_def fields_of_data_def Let_def split: if_splits)
  then have "\<not> is_missing ?data ''NS''"
    by (auto simp: required_def filter_empty_conv)
  then obtain s where s: "?data ''NS'' = Some s" "s \<noteq> []"
    by (auto simp: is_missing_def split: option.splits)
  from assms m s have "py_int s = Some (nro_serie r)"
    by (auto simp: parse_primary_def fields_of_data_def Let_def split: option.splits)
  with s show ?thesis by blast
qed

lemma parse_legacy_Inr:
  assumes "parse_legacy raw = Inr r"
  shows "\<exists>s. legacy_ns (legacy_lines raw) = Inr (Some s) \<and> s \<noteq> [] \<and> py_int s = Some (nro_serie r)"
  using assms
  by (auto simp: parse_legacy_def Let_def truthy_def split: sum.splits if_splits option.splits)

text \<open>
  C9, as the code has it. On every input that decodes, in either format, \<open>nro_serie\<close> is
  the integer that \<open>int\<close> reads from the serial text, and \<open>int\<close> accepts a sign: \<open>nro_serie\<close>
  is at least 0 whenever the serial text does not begin with a minus sign.
\<close>

theorem nro_serie_sign:
  assumes "parse_qr_payload raw = Inr r"
  shows "\<exists>s. serial_text raw = Some s \<and> py_int s = Some (nro_serie r)
             \<and> (take 1 s \<noteq> ''-'' \<longrightarrow> 0 \<le> nro_serie r)"
proof (cases "CHR ''|'' \<in> set (strip raw) \<and> CHR ''='' \<in> set (strip raw)")
  case True
  with assms have "parse_primary (strip raw) = Inr r"
    by (simp add: parse_qr_payload_def Let_def)
  then obtain s where s: "build_data (split_on CHR ''|'' (strip raw)) ''NS'' = Some s"
      "py_int s = Some (nro_serie r)"
    using parse_primary_Inr by blast
  then have "int_strip s = s" using build_data_stripped int_strip_id by blast
  with s True show ?thesis
    using py_int_sign [of s "nro_serie r"] by (auto simp: serial_text_def Let_def)
next
  case False
  with assms have l: "LF \<in> set (strip raw)" "parse_legacy (strip raw) = Inr r"
    by (auto simp: parse_qr_payload_def Let_def split: if_splits)
  then obtain s where s: "legacy_ns (legacy_lines (strip raw)) = Inr (Some s)"
      "py_int s = Some (nro_serie r)"
    using parse_legacy_Inr by blast
  then have "int_strip s = s" using legacy_ns_stripped int_strip_id by blast
  with s False l show ?thesis
    using py_int_sign [of s "nro_serie r"] by (auto simp: serial_text_def Let_def)
qed

theorem nro_serie_sign_witness:
  "serial_text ''NS=000007|PRD=12|DSC=Bolsa 5kg|LOT=090226|FEC=2026-02-09|VTO=2026-08-09'' = Some ''000007''
   \<and> nro_serie \<lparr>descripcion = ''Bolsa 5kg'', nro_serie = 7, id_producto = ''12'', lote = ''090226'',
                 creacion = ''2026-02-09'', vencimiento = ''2026-08-09''\<rparr> \<ge> 0"
proof -
  let ?raw = "''NS=000007|PRD=12|DSC=Bolsa 5kg|LOT=090226|FEC=2026-02-09|VTO=2026-08-09''"
  let ?r = "\<lparr>descripcion = ''Bolsa 5kg'', nro_serie = 7, id_producto = ''12'', lote = ''090226'',
                 creacion = ''2026-02-09'', vencimiento = ''2026-08-09''\<rparr>"
  have p: "parse_qr_payload ?raw = Inr ?r"
    by code_simp
  have t: "serial_text ?raw = Some ''000007''"
    by code_simp
  from nro_serie_sign [OF p] t have "take 1 ''000007'' \<noteq> ''-'' \<longrightarrow> 0 \<le> nro_serie ?r"
    by auto
  with t show ?thesis by simp
qed

text \<open>A serial text with a minus sign decodes, to a negative \<open>nro_serie\<close>.\<close>

theorem nro_serie_counterexample:
  "(case parse_qr_payload ''NS=-5|PRD=12|DSC=Bolsa 5kg|LOT=090226|FEC=2026-02-09|VTO=2026-08-09'' of
      Inl e \<Rightarrow> False | Inr r \<Rightarrow> nro_serie r = - 5 \<and> \<not> 0 \<le> nro_serie r)"
  by code_simp

section \<open>Inserting a label once\<close>

lemma same_key_present: "same_key r1 r2 \<Longrightarrow> key_present conn r1 = key_present conn r2"
  by (auto simp: key_present_def same_key_def list_ex_iff)

lemma key_present_append:
  "key_present (conn @ [(i, r)]) r' \<longleftrightarrow> key_present conn r' \<or> same_key r r'"
  by (auto simp: key_present_def list_ex_iff)

lemma same_key_refl [simp]: "same_key r r"
  by (simp add: same_key_def)

lemma save_scan_cases:
  "save_scan conn raw = Inr (st, conn') \<Longrightarrow>
     (st = DUP \<and> conn' = conn) \<or>
     (\<exists>r. st = OK \<and> parse_qr_payload raw = Inr r \<and> conn' = conn @ [(max_rowid conn + 1, r)])"
  by (auto simp: save_scan_def split: sum.splits if_splits)

lemma on_scan_return_cases:
  "on_scan_return conn t = conn \<or> (\<exists>row. on_scan_return conn t = conn @ [row])"
proof (cases "save_scan conn (strip t)")
  case (Inl e)
  then show ?thesis by (simp add: on_scan_return_def Let_def)
next
  case (Inr res)
  then show ?thesis
    using save_scan_cases [of conn "strip t" "fst res" "snd res"]
    by (auto simp: on_scan_return_def Let_def)
qed

lemma key_present_on_scan_return:
  "key_present conn r \<Longrightarrow> key_present (on_scan_return conn t) r"
  using on_scan_return_cases [of conn t]
  by (auto simp: key_present_def)

lemma key_present_scan_all:
  "key_present conn r \<Longrightarrow> key_present (scan_all conn texts) r"
  unfolding scan_all_def
  by (induction texts arbitrary: conn) (auto simp: key_present_on_scan_return)

text \<open>
  C1, as the code has it. Take a decoded record whose \<open>nro_serie\<close> fits the signed 64-bit
  \<open>INTEGER\<close> column and whose triple (id_producto, nro_serie, lote) is not in the table.
  Saving it returns \<open>OK\<close> and adds exactly one row. Saving any record with the same triple
  afterwards, whatever its descripcion, creacion and vencimiento, and whatever was scanned
  in between, returns \<open>DUP\<close> and leaves the table as it is: over the pair of inserts the
  row count grows by 1.
\<close>

theorem insert_then_duplicate:
  assumes p1: "parse_qr_payload raw1 = Inr r1" and p2: "parse_qr_payload raw2 = Inr r2"
    and k: "same_key r1 r2" and i: "in_int64 (nro_serie r1)" and n: "\<not> key_present conn r1"
  shows "\<exists>conn1. save_scan conn raw1 = Inr (OK, conn1) \<and> length conn1 = length conn + 1
           \<and> save_scan conn1 raw2 = Inr (DUP, conn1)
           \<and> (\<forall>texts. save_scan (scan_all conn1 texts) raw2 = Inr (DUP, scan_all conn1 texts))"
proof -
  let ?conn1 = "conn @ [(max_rowid conn + 1, r1)]"
  have 1: "save_scan conn raw1 = Inr (OK, ?conn1)"
    using p1 i n by (simp add: save_scan_def)
  have i2: "in_int64 (nro_serie r2)"
    using k i by (simp add: same_key_def)
  have "key_present ?conn1 r1"
    by (simp add: key_present_append)
  then have kp: "key_present (scan_all ?conn1 texts) r2" for texts
    using key_present_scan_all same_key_present [OF k] by blast
  then have "key_present ?conn1 r2"
    using kp [of "[]"] by (simp add: scan_all_def)
  then have 2: "save_scan ?conn1 raw2 = Inr (DUP, ?conn1)"
    using p2 i2 by (simp add: save_scan_def)
  have 3: "save_scan (scan_all ?conn1 texts) raw2 = Inr (DUP, scan_all ?conn1 texts)" for texts
    using p2 i2 kp [of texts] by (simp add: save_scan_def)
  show ?thesis
    using 1 2 3 by simp
qed

theorem insert_then_duplicate_witness:
  "save_scan [] ''NS=000001|PRD=12|DSC=Bolsa 5kg|LOT=090226|FEC=2026-02-09|VTO=2026-08-09''
     = Inr (OK, [(1, \<lparr>descripcion = ''Bolsa 5kg'', nro_serie = 1, id_producto = ''12'',
                        lote = ''090226'', creacion = ''2026-02-09'', vencimiento = ''2026-08-09''\<rparr>)])
   \<and> save_scan [(1, \<lparr>descripcion = ''Bolsa 5kg'', nro_serie = 1, id_producto = ''12'',
                        lote = ''090226'', creacion = ''2026-02-09'', vencimiento = ''2026-08-09''\<rparr>)]
        ''LOT=090226|NS=1|PRD=12|DSC=Otra|FEC=2027-01-01|VTO=2027-07-01''
     = Inr (DUP, [(1, \<lparr>descripcion = ''Bolsa 5kg'', nro_serie = 1, id_producto = ''12'',
                        lote = ''090226'', creacion = ''2026-02-09'', vencimiento = ''2026-08-09''\<rparr>)])"
proof -
  let ?raw1 = "''NS=000001|PRD=12|DSC=Bolsa 5kg|LOT=090226|FEC=2026-02-09|VTO=2026-08-09''"
  let ?raw2 = "''LOT=090226|NS=1|PRD=12|DSC=Otra|FEC=2027-01-01|VTO=2027-07-01''"
  let ?r1 = "\<lparr>descripcion = ''Bolsa 5kg'', nro_serie = 1, id_producto = ''12'',
               lote = ''090226'', creacion = ''2026-02-09'', vencimiento = ''2026-08-09''\<rparr>"
  let ?r2 = "\<lparr>descripcion = ''Otra'', nro_serie = 1, id_producto = ''12'',
               lote = ''090226'', creacion = ''2027-01-01'', vencimiento = ''2027-07-01''\<rparr>"
  have p1: "parse_qr_payload ?raw1 = Inr ?r1" by code_simp
  have p2: "parse_qr_payload ?raw2 = Inr ?r2" by code_simp
  have k: "same_key ?r1 ?r2" by (simp add: same_key_def)
  have i: "in_int64 (nro_serie ?r1)" by (simp add: in_int64_def)
  have n: "\<not> key_present [] ?r1" by (simp add: key_present_def)
  have m: "max_rowid [] + 1 = 1" by (simp add: max_rowid_def)
  from insert_then_duplicate [OF p1 p2 k i n]
  obtain conn1 where c: "save_scan [] ?raw1 = Inr (OK, conn1)"
      "save_scan conn1 ?raw2 = Inr (DUP, conn1)"
    by blast
  have "save_scan [] ?raw1 = Inr (OK, [(1, ?r1)])"
    using p1 i n m by (simp add: save_scan_def)
  with c have "conn1 = [(1, ?r1)]" by simp
  with c show ?thesis by simp
qed

text \<open>
  A serial number of \<open>2 ^ 63\<close> decodes, and its triple is new to the empty table, but the
  insert stops with \<open>OverflowError\<close> instead of returning \<open>OK\<close>.
\<close>

theorem insert_overflow_counterexample:
  "(case parse_qr_payload ''NS=9223372036854775808|PRD=12|DSC=Bolsa 5kg|LOT=090226|FEC=2026-02-09|VTO=2026-08-09'' of
      Inl e \<Rightarrow> False | Inr r \<Rightarrow> nro_serie r = 9223372036854775808 \<and> \<not> key_present [] r)
   \<and> save_scan [] ''NS=9223372036854775808|PRD=12|DSC=Bolsa 5kg|LOT=090226|FEC=2026-02-09|VTO=2026-08-09''
       = Inl OverflowError"
  by code_simp

section \<open>The latest scans\<close>

lemma max_rowid_ge: "r \<in> set conn \<Longrightarrow> fst r \<le> max_rowid conn"
  by (induction conn) (auto simp: max_rowid_def)

lemma rowids_increasing_append:
  "rowids_increasing conn \<Longrightarrow> rowids_increasing (conn @ [(Suc (max_rowid conn), r)])"
  unfolding rowids_increasing_def
  by (auto simp: sorted_wrt_append dest!: max_rowid_ge)

lemma rowids_increasing_on_scan_return:
  "rowids_increasing conn \<Longrightarrow> rowids_increasing (on_scan_return conn t)"
proof (cases "save_scan conn (strip t)")
  case (Inl e)
  assume "rowids_increasing conn"
  with Inl show ?thesis by (simp add: on_scan_return_def Let_def)
next
  case (Inr res)
  assume "rowids_increasing conn"
  then show ?thesis
    using Inr save_scan_cases [of conn "strip t" "fst res" "snd res"]
    by (auto simp: on_scan_return_def Let_def rowids_increasing_append)
qed

lemma rowids_increasing_scan_all:
  "rowids_increasing conn \<Longrightarrow> rowids_increasing (scan_all conn texts)"
  unfolding scan_all_def
  by (induction texts arbitrary: conn) (auto simp: rowids_increasing_on_scan_return)

lemma sort_key_rowid_id: "rowids_increasing conn \<Longrightarrow> sort_key fst conn = conn"
  unfolding rowids_increasing_def
  by (simp add: sort_key_id_if_sorted strict_sorted_imp_sorted)

lemma latest_rows_increasing:
  "rowids_increasing conn \<Longrightarrow> 0 \<le> limit \<Longrightarrow> limit < 2 ^ 63 \<Longrightarrow>
     latest_rows conn limit = Inr (take (nat limit) (rev conn))"
  by (simp add: latest_rows_def in_int64_def sort_key_rowid_id)

lemma length_on_scan_return:
  "length (on_scan_return conn t)
     = length conn + (case save_scan conn (strip t) of Inr (OK, conn') \<Rightarrow> 1 | _ \<Rightarrow> 0)"
proof (cases "save_scan conn (strip t)")
  case (Inl e)
  then show ?thesis by (simp add: on_scan_return_def Let_def)
next
  case (Inr res)
  obtain st conn' where res: "res = (st, conn')" by (cases res)
  have ne: "strip t \<noteq> []"
  proof
    assume "strip t = []"
    then have "save_scan conn (strip t) = Inl UnrecognizedFormat"
      by (simp add: save_scan_def parse_qr_payload_def)
    with Inr show False by simp
  qed
  show ?thesis
    using Inr res ne save_scan_cases [of conn "strip t" st conn']
    by (cases st) (auto simp: on_scan_return_def Let_def)
qed

lemma length_scan_all:
  "length (scan_all conn texts) = length conn + successful_inserts conn texts"
  unfolding scan_all_def
  by (induction texts arbitrary: conn) (simp_all add: length_on_scan_return)

text \<open>
  C8, as the code has it. The table after any sequence of scans into an empty database
  holds one row per successful insert, in the order of insertion: after \<open>N\<close> successful
  inserts it has \<open>N\<close> rows. For a limit of at least 0 that fits the signed 64-bit range,
  \<open>fetch_latest_scans\<close> returns the rows newest first, cut to the limit: the rowids of the
  returned rows decrease strictly, and the row at position \<open>i\<close> is the one inserted \<open>i\<close>
  places before the last. When \<open>N\<close> is at least the limit, exactly \<open>limit\<close> rows are
  returned; when \<open>N\<close> is less, all \<open>N\<close> rows are.
\<close>

theorem recent_is_newest_first:
  assumes c: "conn = scan_all (init_db None) texts"
    and n: "N = successful_inserts (init_db None) texts"
    and l: "0 \<le> limit" and u: "limit < 2 ^ 63"
  shows "length conn = N
       \<and> (\<exists>rows. latest_rows conn limit = Inr rows
             \<and> fetch_latest_scans conn limit = Inr (map snd rows)
             \<and> rows = take (nat limit) (rev conn)
             \<and> sorted_wrt (>) (map fst rows)
             \<and> (limit \<le> int N \<longrightarrow> int (length rows) = limit)
             \<and> (int N < limit \<longrightarrow> rows = rev conn)
             \<and> (\<forall>i < length rows. rows ! i = conn ! (N - 1 - i)))"
proof -
  let ?rows = "take (nat limit) (rev conn)"
  have 0: "length conn = N"
    unfolding c n by (simp add: length_scan_all init_db_def)
  have inc: "rowids_increasing conn"
    unfolding c by (rule rowids_increasing_scan_all) (simp add: rowids_increasing_def init_db_def)
  have lr: "latest_rows conn limit = Inr ?rows"
    using inc l u by (rule latest_rows_increasing)
  have 1: "fetch_latest_scans conn limit = Inr (map snd ?rows)"
    by (simp add: fetch_latest_scans_def lr)
  have "sorted_wrt (>) (map fst (rev conn))"
    using inc by (simp add: rowids_increasing_def sorted_wrt_rev rev_map [symmetric])
  then have 2: "sorted_wrt (>) (map fst ?rows)"
    unfolding take_map [symmetric] by (rule sorted_wrt_take)
  have 3: "limit \<le> int N \<longrightarrow> int (length ?rows) = limit"
    using l 0 by auto
  have 4: "int N < limit \<longrightarrow> ?rows = rev conn"
    using 0 by auto
  have 5: "\<forall>i < length ?rows. ?rows ! i = conn ! (N - 1 - i)"
    using 0 by (auto simp: rev_nth)
  show ?thesis using 0 lr 1 2 3 4 5 by blast
qed

theorem recent_is_newest_first_witness:
  "fetch_latest_scans
     (scan_all (init_db None)
        [''NS=1|PRD=12|DSC=x|LOT=090226|FEC=a|VTO=b'', ''NS=2|PRD=12|DSC=x|LOT=090226|FEC=a|VTO=b'',
         ''NS=2|PRD=12|DSC=y|LOT=090226|FEC=c|VTO=d'', ''NS=3|PRD=12|DSC=x|LOT=090226|FEC=a|VTO=b'']) 2
   = Inr [\<lparr>descripcion = ''x'', nro_serie = 3, id_producto = ''12'', lote = ''090226'',
            creacion = ''a'', vencimiento = ''b''\<rparr>,
          \<lparr>descripcion = ''x'', nro_serie = 2, id_producto = ''12'', lote = ''090226'',
            creacion = ''a'', vencimiento = ''b''\<rparr>]
   \<and> successful_inserts (init_db None)
        [''NS=1|PRD=12|DSC=x|LOT=090226|FEC=a|VTO=b'', ''NS=2|PRD=12|DSC=x|LOT=090226|FEC=a|VTO=b'',
         ''NS=2|PRD=12|DSC=y|LOT=090226|FEC=c|VTO=d'', ''NS=3|PRD=12|DSC=x|LOT=090226|FEC=a|VTO=b'']
     = 3"
proof -
  let ?texts = "[''NS=1|PRD=12|DSC=x|LOT=090226|FEC=a|VTO=b'', ''NS=2|PRD=12|DSC=x|LOT=090226|FEC=a|VTO=b'',
         ''NS=2|PRD=12|DSC=y|LOT=090226|FEC=c|VTO=d'', ''NS=3|PRD=12|DSC=x|LOT=090226|FEC=a|VTO=b'']"
  let ?r = "\<lambda>n. \<lparr>descripcion = ''x'', nro_serie = n, id_producto = ''12'', lote = ''090226'',
        creacion = ''a'', vencimiento = ''b''\<rparr>"
  have c: "scan_all (init_db None) ?texts = [(1, ?r 1), (2, ?r 2), (3, ?r 3)]"
    by code_simp
  have l: "(0::int) \<le> 2" "(2::int) < 2 ^ 63"
    by simp_all
  from recent_is_newest_first [OF refl refl l, of ?texts]
  obtain rows where r: "length (scan_all (init_db None) ?texts)
        = successful_inserts (init_db None) ?texts"
      "fetch_latest_scans (scan_all (init_db None) ?texts) 2 = Inr (map snd rows)"
      "rows = take (nat 2) (rev (scan_all (init_db None) ?texts))"
    by blast
  then show ?thesis
    unfolding c by simp
qed

text \<open>
  One successful insert and a limit of \<open>2 ^ 63\<close>: the table has fewer rows than the limit,
  but the query stops with \<open>OverflowError\<close> instead of returning the row.
\<close>

theorem recent_overflow_counterexample:
  "scan_all (init_db None) [''NS=1|PRD=12|DSC=x|LOT=090226|FEC=a|VTO=b'']
     = [(1, \<lparr>descripcion = ''x'', nro_serie = 1, id_producto = ''12'', lote = ''090226'',
               creacion = ''a'', vencimiento = ''b''\<rparr>)]
   \<and> successful_inserts (init_db None) [''NS=1|PRD=12|DSC=x|LOT=090226|FEC=a|VTO=b''] = 1
   \<and> fetch_latest_scans
        (scan_all (init_db None) [''NS=1|PRD=12|DSC=x|LOT=090226|FEC=a|VTO=b''])
        9223372036854775808
     = Inl OverflowError"
  by code_simp

section \<open>Dates of the old format\<close>

lemma digit_char_facts:
  "\<forall>n \<in> set [0..<10]. is_digit (digit_char n) \<and> digit_val (digit_char n) = n
       \<and> digit_char n \<noteq> CHR ''/'' \<and> \<not> is_space (digit_char n)"
  by code_simp

lemma digit_char_props:
  assumes "n < 10"
  shows "is_digit (digit_char n)" "digit_val (digit_char n) = n"
    "digit_char n \<noteq> CHR ''/''" "\<not> is_space (digit_char n)"
  using assms digit_char_facts by auto

lemma parse_day_two_digits_all: "\<forall>d \<in> set [1..<32]. parse_day (two_digits d) = Some d"
  by code_simp

lemma parse_month_two_digits_all: "\<forall>m \<in> set [1..<13]. parse_month (two_digits m) = Some m"
  by code_simp

lemma parse_year2_two_digits: 
  assumes "yy < 100" shows "parse_year2 (two_digits yy) = Some (full_year yy)"
proof -
  have "yy div 10 < 10" "yy mod 10 < 10" using assms by simp_all
  then show ?thesis
    by (simp add: two_digits_def full_year_def digit_char_props(1,2))
qed


lemma strptime_dmy_slash: "strptime_dmy s = Some t \<Longrightarrow> CHR ''/'' \<in> set s"
  using split_on_absent [of "CHR ''/''" s]
  by (auto simp: strptime_dmy_def split: list.splits)

lemma days_in_month_le: "days_in_month y m \<le> 31"
  by (simp add: days_in_month_def)

lemma two_digits_no_slash: "n < 100 \<Longrightarrow> CHR ''/'' \<notin> set (two_digits n)"
proof -
  assume "n < 100"
  then have "n div 10 < 10" "n mod 10 < 10" by simp_all
  then have "digit_char (n div 10) \<noteq> CHR ''/''" "digit_char (n mod 10) \<noteq> CHR ''/''"
    by (simp_all add: digit_char_props(3))
  then show ?thesis
    by (auto simp: two_digits_def)
qed

lemma strptime_dmy_two_digits:
  assumes "1 \<le> m" "m \<le> 12" "yy < 100" "1 \<le> d" "d \<le> days_in_month (full_year yy) m"
  shows "strptime_dmy (two_digits d @ CHR ''/'' # two_digits m @ CHR ''/'' # two_digits yy)
           = Some (full_year yy, m, d)"
proof -
  have d31: "d \<le> 31" using assms(5) days_in_month_le [of "full_year yy" m] by simp
  have nd: "CHR ''/'' \<notin> set (two_digits d)" "CHR ''/'' \<notin> set (two_digits m)"
     "CHR ''/'' \<notin> set (two_digits yy)"
    using assms(2,3) d31 by (simp_all add: two_digits_no_slash)
  have sp: "split_on CHR ''/'' (two_digits d @ CHR ''/'' # two_digits m @ CHR ''/'' # two_digits yy)
        = [two_digits d, two_digits m, two_digits yy]"
    using nd by (simp add: split_on_append_sep split_on_absent)
  have pd: "parse_day (two_digits d) = Some d"
    using parse_day_two_digits_all assms(4) d31 by simp
  have pm: "parse_month (two_digits m) = Some m"
    using parse_month_two_digits_all assms(1,2) by simp
  have py: "parse_year2 (two_digits yy) = Some (full_year yy)"
    using parse_year2_two_digits assms(3) by simp
  show ?thesis
    using assms(5) by (simp add: strptime_dmy_def sp pd pm py)
qed

text \<open>
  C7. Every date value taken from a label in the old format is normalised as follows. A
  value without a slash stays as it is. A value with a slash that \<open>strptime\<close> refuses stays
  as it is, and nothing fails. A value that \<open>strptime\<close> reads as day/month/two-digit year
  becomes the ISO 8601 text of that date; in particular the text DD/MM/YY of a calendar
  date becomes YYYY-MM-DD, with the year 20YY up to 68 and 19YY from 69 on.
\<close>

theorem legacy_date_normalization:
  assumes "pick lines prefix = Inr (Some s)"
  shows "(CHR ''/'' \<notin> set s \<longrightarrow> normalize_date s = s)
       \<and> (CHR ''/'' \<in> set s \<and> strptime_dmy s = None \<longrightarrow> normalize_date s = s)
       \<and> (\<forall>y m d. strptime_dmy s = Some (y, m, d) \<longrightarrow>
             CHR ''/'' \<in> set s \<and> normalize_date s = isoformat y m d)
       \<and> (\<forall>d m yy. s = two_digits d @ CHR ''/'' # two_digits m @ CHR ''/'' # two_digits yy
             \<and> 1 \<le> m \<and> m \<le> 12 \<and> yy < 100 \<and> 1 \<le> d \<and> d \<le> days_in_month (full_year yy) m
             \<longrightarrow> normalize_date s = isoformat (full_year yy) m d)"
proof -
  have s: "strip s = s" using assms by (rule pick_stripped)
  have 1: "CHR ''/'' \<notin> set s \<longrightarrow> normalize_date s = s"
    by (simp add: normalize_date_def s)
  have 2: "CHR ''/'' \<in> set s \<and> strptime_dmy s = None \<longrightarrow> normalize_date s = s"
    by (simp add: normalize_date_def s)
  have 3: "strptime_dmy s = Some (y, m, d) \<longrightarrow>
             CHR ''/'' \<in> set s \<and> normalize_date s = isoformat y m d" for y m d
    using strptime_dmy_slash [of s "(y, m, d)"] by (auto simp: normalize_date_def s)
  have 4: "s = two_digits d @ CHR ''/'' # two_digits m @ CHR ''/'' # two_digits yy
             \<and> 1 \<le> m \<and> m \<le> 12 \<and> yy < 100 \<and> 1 \<le> d \<and> d \<le> days_in_month (full_year yy) m
             \<longrightarrow> normalize_date s = isoformat (full_year yy) m d" for d m yy
    using strptime_dmy_two_digits [of m yy d] 3 [of "full_year yy" m d] by auto
  show ?thesis using 1 2 3 4 by blast
qed

theorem legacy_date_normalization_witness:
  "normalize_date ''09/02/26'' = ''2026-02-09'' \<and> normalize_date ''31/02/26'' = ''31/02/26''
   \<and> normalize_date ''2026-02-09'' = ''2026-02-09''
   \<and> parse_qr_payload
        (''Detergente X'' @ [LF] @ ''N'' @ [CHR 0xB0] @ '' de serie: 000002'' @ [LF]
         @ ''ID producto: 7'' @ [LF] @ ''Lote: 100125'' @ [LF]
         @ ''Creaci'' @ [CHR 0xF3] @ ''n: 10/01/25'' @ [LF] @ ''Vencimiento: 10/07/25'')
      = Inr \<lparr>descripcion = ''Detergente X'', nro_serie = 2, id_producto = ''7'',
             lote = ''100125'', creacion = ''2025-01-10'', vencimiento = ''2025-07-10''\<rparr>"
proof -
  have p1: "pick [''Creacion: 09/02/26''] ''Creacion'' = Inr (Some ''09/02/26'')" by code_simp
  have p2: "pick [''Creacion: 31/02/26''] ''Creacion'' = Inr (Some ''31/02/26'')" by code_simp
  have p3: "pick [''Creacion: 2026-02-09''] ''Creacion'' = Inr (Some ''2026-02-09'')" by code_simp
  have e1: "''09/02/26'' = two_digits 9 @ CHR ''/'' # two_digits 2 @ CHR ''/'' # two_digits 26"
    by code_simp
  have d1: "(9::nat) \<le> days_in_month (full_year 26) 2" by code_simp
  have i1: "isoformat (full_year 26) 2 9 = ''2026-02-09''" by code_simp
  have n2: "strptime_dmy ''31/02/26'' = None" by code_simp
  have a: "normalize_date ''09/02/26'' = ''2026-02-09''"
    using legacy_date_normalization [OF p1] e1 d1 i1 by auto
  have b: "normalize_date ''31/02/26'' = ''31/02/26''"
    using legacy_date_normalization [OF p2] n2 by simp
  have c: "normalize_date ''2026-02-09'' = ''2026-02-09''"
    using legacy_date_normalization [OF p3] by simp
  have d: "parse_qr_payload
        (''Detergente X'' @ [LF] @ ''N'' @ [CHR 0xB0] @ '' de serie: 000002'' @ [LF]
         @ ''ID producto: 7'' @ [LF] @ ''Lote: 100125'' @ [LF]
         @ ''Creaci'' @ [CHR 0xF3] @ ''n: 10/01/25'' @ [LF] @ ''Vencimiento: 10/07/25'')
      = Inr \<lparr>descripcion = ''Detergente X'', nro_serie = 2, id_producto = ''7'',
             lote = ''100125'', creacion = ''2025-01-10'', vencimiento = ''2025-07-10''\<rparr>"
    by code_simp
  show ?thesis using a b c d by simp
qed

section \<open>Keys and segments\<close>

text \<open>
  The dictionary the loop builds maps every key to the value of its last occurrence, and
  it is the same whether or not the input was stripped first.
\<close>

lemma occurrences_snoc:
  "occurrences (parts @ [p]) k =
     (if CHR ''='' \<in> set p \<and> seg_key p = k then occurrences parts k @ [p] else occurrences parts k)"
  by (simp add: occurrences_def)

lemma last_value_snoc:
  "last_value (parts @ [p]) k =
     (if CHR ''='' \<in> set p \<and> seg_key p = k then Some (seg_value p) else last_value parts k)"
  by (simp add: last_value_def occurrences_snoc)

lemma build_data_snoc: "build_data (parts @ [p]) = kv_update (build_data parts) p"
  by (simp add: build_data_def)

lemma build_data_last_value: "build_data parts k = last_value parts k"
proof (induction parts rule: rev_induct)
  case Nil
  show ?case by (simp add: build_data_def last_value_def occurrences_def)
next
  case (snoc p parts)
  then show ?case
    by (simp add: build_data_snoc last_value_snoc kv_update_def seg_key_def seg_value_def)
qed

lemma build_data_eq_last_value: "build_data parts = last_value parts"
  by (rule ext) (rule build_data_last_value)


lemma seg_kv_lstrip: "seg_kv (lstrip p) = seg_kv p"
proof -
  have sp: "\<forall>x. is_space x \<longrightarrow> x \<noteq> CHR ''=''"
    by auto
  have "before_first CHR ''='' (lstrip p) = lstrip (before_first CHR ''='' p)"
    unfolding before_first_def lstrip_def using sp by (rule takeWhile_dropWhile_swap)
  then have k: "seg_key (lstrip p) = seg_key p"
    by (simp add: seg_key_def)
  have "after_first CHR ''='' (lstrip p) = after_first CHR ''='' p"
    unfolding after_first_def lstrip_def using sp by (simp add: dropWhile_dropWhile_absorb)
  then have v: "seg_value (lstrip p) = seg_value p"
    by (simp add: seg_value_def)
  show ?thesis
    by (simp add: seg_kv_def k v set_lstrip)
qed

lemma seg_kv_rstrip: "seg_kv (rstrip p) = seg_kv p"
proof (cases "CHR ''='' \<in> set p")
  case False
  then show ?thesis by (simp add: seg_kv_def set_rstrip)
next
  case True
  then obtain a b where p: "p = a @ CHR ''='' # b" "CHR ''='' \<notin> set a"
    by (meson split_list_first)
  have "\<not> (\<forall>c\<in>set (CHR ''='' # b). is_space c)"
    by simp
  then have "rstrip (a @ CHR ''='' # b) = a @ rstrip (CHR ''='' # b)"
    by (rule rstrip_append_nonspace)
  then have r: "rstrip (a @ CHR ''='' # b) = a @ CHR ''='' # rstrip b"
    by (simp add: rstrip_Cons)
  have k: "seg_key (rstrip p) = seg_key p"
    using p(2) by (simp add: r p(1) seg_key_def before_first_def takeWhile_append)
  have v: "seg_value (rstrip p) = seg_value p"
    using p(2) by (simp add: r p(1) seg_value_def after_first_def dropWhile_append)
  show ?thesis
    using True by (simp add: seg_kv_def k v set_rstrip)
qed

lemma kv_update_seg_kv: "seg_kv p = seg_kv q \<Longrightarrow> kv_update m p = kv_update m q"
  by (auto simp: seg_kv_def kv_update_def seg_key_def seg_value_def split: if_splits)

lemma foldl_kv_update_cong:
  "map seg_kv ps = map seg_kv qs \<Longrightarrow> foldl kv_update m ps = foldl kv_update m qs"
proof (induction ps arbitrary: qs m)
  case Nil
  then show ?case by simp
next
  case (Cons p ps)
  then obtain q qs' where q: "qs = q # qs'" "seg_kv p = seg_kv q" "map seg_kv ps = map seg_kv qs'"
    by (cases qs) auto
  then show ?case
    using Cons.IH [of qs' "kv_update m q"] kv_update_seg_kv [of p q m] by simp
qed

lemma map_seg_kv_strip:
  "map seg_kv (split_on CHR ''|'' (strip raw)) = map seg_kv (split_on CHR ''|'' raw)"
proof -
  obtain p ps where L: "split_on CHR ''|'' raw = p # ps"
    by (cases "split_on CHR ''|'' raw") simp_all
  let ?L1 = "split_on CHR ''|'' (lstrip raw)"
  have "?L1 = lstrip (hd (split_on CHR ''|'' raw)) # tl (split_on CHR ''|'' raw)"
    by (rule split_on_lstrip) simp
  then have 1: "?L1 = lstrip p # ps"
    by (simp add: L)
  have a: "map seg_kv ?L1 = map seg_kv (p # ps)"
    by (simp add: 1 seg_kv_lstrip)
  obtain ys y where L1: "?L1 = ys @ [y]"
    by (cases ?L1 rule: rev_cases) simp_all
  have "split_on CHR ''|'' (strip raw) = butlast ?L1 @ [rstrip (last ?L1)]"
    unfolding strip_def by (rule split_on_rstrip) simp
  then have 2: "split_on CHR ''|'' (strip raw) = ys @ [rstrip y]"
    by (simp add: L1)
  have "map seg_kv (ys @ [rstrip y]) = map seg_kv (ys @ [y])"
    by (simp add: seg_kv_rstrip)
  then show ?thesis
    using a by (simp only: 2 L1 L)
qed

lemma build_data_strip:
  "build_data (split_on CHR ''|'' (strip raw)) = build_data (split_on CHR ''|'' raw)"
  unfolding build_data_def by (rule foldl_kv_update_cong) (rule map_seg_kv_strip)

lemma parse_primary_last_value:
  "parse_primary (strip raw) = fields_of_data (last_value (split_on CHR ''|'' raw))"
proof -
  have "parse_primary (strip raw) = fields_of_data (build_data (split_on CHR ''|'' raw))"
    by (simp only: parse_primary_def build_data_strip)
  then show ?thesis
    by (simp only: build_data_eq_last_value)
qed


lemma parse_qr_payload_primary:
  "CHR ''|'' \<in> set raw \<Longrightarrow> CHR ''='' \<in> set raw \<Longrightarrow>
     parse_qr_payload raw = fields_of_data (last_value (split_on CHR ''|'' raw))"
  by (simp add: parse_qr_payload_def Let_def set_strip parse_primary_last_value)

lemma is_missing_last_value: "is_missing (last_value parts) = absent_or_empty parts"
  by (rule ext) (auto simp: is_missing_def absent_or_empty_def split: option.splits)

lemma fields_of_data_missing:
  "\<exists>k\<in>set required. is_missing data k \<Longrightarrow>
     fields_of_data data = Inl (MissingFields (filter (is_missing data) required))"
  by (auto simp: fields_of_data_def Let_def filter_empty_conv)

text \<open>
  C6. Take an input with a bar and an equals sign in which some required key is absent or
  has an empty value after trimming (for a repeated key, in its last occurrence). Decoding
  fails with \<open>MissingFields\<close>, and the list it carries holds exactly the required keys that
  are absent or empty, in the order NS, PRD, DSC, LOT, FEC, VTO. An input that lacks only
  VTO gives \<open>MissingFields ["VTO"]\<close>.
\<close>

theorem missing_fields_listed:
  assumes "CHR ''|'' \<in> set raw" and "CHR ''='' \<in> set raw"
    and "\<exists>k\<in>set required. absent_or_empty (split_on CHR ''|'' raw) k"
  shows "parse_qr_payload raw =
           Inl (MissingFields (filter (absent_or_empty (split_on CHR ''|'' raw)) required))"
proof -
  have "parse_qr_payload raw = fields_of_data (last_value (split_on CHR ''|'' raw))"
    using assms(1,2) by (rule parse_qr_payload_primary)
  moreover have "\<exists>k\<in>set required. is_missing (last_value (split_on CHR ''|'' raw)) k"
    using assms(3) by (simp add: is_missing_last_value)
  ultimately show ?thesis
    by (simp add: fields_of_data_missing is_missing_last_value)
qed

theorem missing_fields_listed_witness:
  "parse_qr_payload ''NS=000001|PRD=12|DSC=Bolsa 5kg|LOT=090226|FEC=2026-02-09''
     = Inl (MissingFields [''VTO''])
   \<and> parse_qr_payload ''VTO=|NS=|PRD=12|DSC=Bolsa 5kg|FEC=2026-02-09''
     = Inl (MissingFields [''NS'', ''LOT'', ''VTO''])"
proof -
  let ?a = "''NS=000001|PRD=12|DSC=Bolsa 5kg|LOT=090226|FEC=2026-02-09''"
  let ?b = "''VTO=|NS=|PRD=12|DSC=Bolsa 5kg|FEC=2026-02-09''"
  have a: "CHR ''|'' \<in> set ?a" "CHR ''='' \<in> set ?a" by simp_all
  have b: "CHR ''|'' \<in> set ?b" "CHR ''='' \<in> set ?b" by simp_all
  have fa: "filter (absent_or_empty (split_on CHR ''|'' ?a)) required = [''VTO'']"
    by code_simp
  have fb: "filter (absent_or_empty (split_on CHR ''|'' ?b)) required = [''NS'', ''LOT'', ''VTO'']"
    by code_simp
  have ea: "\<exists>k\<in>set required. absent_or_empty (split_on CHR ''|'' ?a) k"
    using fa by (metis filter_empty_conv list.distinct(1))
  have eb: "\<exists>k\<in>set required. absent_or_empty (split_on CHR ''|'' ?b) k"
    using fb by (metis filter_empty_conv list.distinct(1))
  show ?thesis
    using missing_fields_listed [OF a ea] missing_fields_listed [OF b eb]
    unfolding fa fb by simp
qed

lemma fields_of_data_cong:
  assumes "\<forall>k\<in>set required. d k = d' k"
  shows "fields_of_data d = fields_of_data d'"
proof -
  have f: "filter (is_missing d) required = filter (is_missing d') required"
    using assms by (intro filter_cong) (auto simp: is_missing_def)
  have e: "d ''NS'' = d' ''NS''" "d ''PRD'' = d' ''PRD''" "d ''DSC'' = d' ''DSC''"
    "d ''LOT'' = d' ''LOT''" "d ''FEC'' = d' ''FEC''" "d ''VTO'' = d' ''VTO''"
    using assms by (simp_all add: required_def)
  show ?thesis
    unfolding fields_of_data_def f e ..
qed

lemma occurrences_perm:
  assumes "mset parts' = mset parts" and "length (occurrences parts k) = 1"
  shows "occurrences parts' k = occurrences parts k"
proof -
  obtain p where p: "occurrences parts k = [p]"
    using assms(2) by (cases "occurrences parts k") auto
  have "mset (occurrences parts' k) = mset (occurrences parts k)"
    using assms(1) by (simp add: occurrences_def)
  then have "mset (occurrences parts' k) = {#p#}"
    by (simp add: p)
  then show ?thesis
    by (simp add: p)
qed

lemma once_is_primary:
  assumes "\<forall>k\<in>set required. length (occurrences (split_on CHR ''|'' raw) k) = 1"
  shows "CHR ''|'' \<in> set raw \<and> CHR ''='' \<in> set raw"
proof -
  let ?L = "split_on CHR ''|'' raw"
  obtain p where p: "occurrences ?L ''NS'' = [p]"
    using assms by (cases "occurrences ?L ''NS''") (auto simp: required_def)
  obtain q where q: "occurrences ?L ''PRD'' = [q]"
    using assms by (cases "occurrences ?L ''PRD''") (auto simp: required_def)
  have "p \<in> set (occurrences ?L ''NS'')" "q \<in> set (occurrences ?L ''PRD'')"
    by (simp_all add: p q)
  then have pq: "p \<in> set ?L" "q \<in> set ?L" "CHR ''='' \<in> set p" "seg_key p = ''NS''"
      "seg_key q = ''PRD''"
    by (simp_all add: occurrences_def)
  then have "p \<noteq> q" by auto
  have bar: "CHR ''|'' \<in> set raw"
  proof (rule ccontr)
    assume "CHR ''|'' \<notin> set raw"
    then have "?L = [raw]" by (rule split_on_absent)
    with pq(1,2) \<open>p \<noteq> q\<close> show False by simp
  qed
  have "CHR ''='' \<in> set raw"
    using split_on_subset [OF pq(1)] pq(3) by blast
  with bar show ?thesis ..
qed

text \<open>
  C5. When each of the six required keys occurs in exactly one segment of an input, every
  input whose segments are a permutation of its segments decodes to the same outcome.
  And on every input in the key/value format the decoder reads each key from the last
  segment that carries it.
\<close>

theorem segment_order_irrelevant:
  "(mset (split_on CHR ''|'' raw') = mset (split_on CHR ''|'' raw)
      \<and> (\<forall>k\<in>set required. length (occurrences (split_on CHR ''|'' raw) k) = 1)
      \<longrightarrow> parse_qr_payload raw' = parse_qr_payload raw)
   \<and> (CHR ''|'' \<in> set raw \<and> CHR ''='' \<in> set raw
      \<longrightarrow> parse_qr_payload raw = fields_of_data (last_value (split_on CHR ''|'' raw)))"
proof (intro conjI impI)
  assume h: "mset (split_on CHR ''|'' raw') = mset (split_on CHR ''|'' raw)
      \<and> (\<forall>k\<in>set required. length (occurrences (split_on CHR ''|'' raw) k) = 1)"
  let ?L = "split_on CHR ''|'' raw" and ?L' = "split_on CHR ''|'' raw'"
  from h have m: "mset ?L' = mset ?L"
    and once: "\<forall>k\<in>set required. length (occurrences ?L k) = 1"
    by simp_all
  have occ: "\<forall>k\<in>set required. occurrences ?L' k = occurrences ?L k"
    using occurrences_perm [OF m] once by blast
  then have once': "\<forall>k\<in>set required. length (occurrences ?L' k) = 1"
    using once by simp
  have lv: "\<forall>k\<in>set required. last_value ?L' k = last_value ?L k"
    using occ by (simp add: last_value_def)
  have "parse_qr_payload raw' = fields_of_data (last_value ?L')"
    using once_is_primary [OF once'] by (simp add: parse_qr_payload_primary)
  also have "\<dots> = fields_of_data (last_value ?L)"
    using lv by (rule fields_of_data_cong)
  also have "\<dots> = parse_qr_payload raw"
    using once_is_primary [OF once] by (simp add: parse_qr_payload_primary)
  finally show "parse_qr_payload raw' = parse_qr_payload raw" .
next
  assume "CHR ''|'' \<in> set raw \<and> CHR ''='' \<in> set raw"
  then show "parse_qr_payload raw = fields_of_data (last_value (split_on CHR ''|'' raw))"
    by (simp add: parse_qr_payload_primary)
qed


theorem segment_order_irrelevant_witness:
  "parse_qr_payload ''VTO=2026-08-09|LOT=090226|NS=000001|DSC=Bolsa 5kg|FEC=2026-02-09|PRD=12''
     = parse_qr_payload ''NS=000001|PRD=12|DSC=Bolsa 5kg|LOT=090226|FEC=2026-02-09|VTO=2026-08-09''
   \<and> parse_qr_payload ''NS=1|PRD=12|DSC=a|LOT=b|FEC=c|VTO=d|NS=2''
     = Inr \<lparr>descripcion = ''a'', nro_serie = 2, id_producto = ''12'', lote = ''b'',
            creacion = ''c'', vencimiento = ''d''\<rparr>"
proof -
  let ?raw = "''NS=000001|PRD=12|DSC=Bolsa 5kg|LOT=090226|FEC=2026-02-09|VTO=2026-08-09''"
  let ?raw' = "''VTO=2026-08-09|LOT=090226|NS=000001|DSC=Bolsa 5kg|FEC=2026-02-09|PRD=12''"
  let ?dup = "''NS=1|PRD=12|DSC=a|LOT=b|FEC=c|VTO=d|NS=2''"
  have s: "split_on CHR ''|'' ?raw
             = [''NS=000001'', ''PRD=12'', ''DSC=Bolsa 5kg'', ''LOT=090226'', ''FEC=2026-02-09'',
                ''VTO=2026-08-09'']"
    by code_simp
  have s': "split_on CHR ''|'' ?raw'
             = [''VTO=2026-08-09'', ''LOT=090226'', ''NS=000001'', ''DSC=Bolsa 5kg'',
                ''FEC=2026-02-09'', ''PRD=12'']"
    by code_simp
  have m: "mset (split_on CHR ''|'' ?raw') = mset (split_on CHR ''|'' ?raw)"
    unfolding s s' by (simp add: add_mset_commute)
  have o: "\<forall>k\<in>set required. length (occurrences (split_on CHR ''|'' ?raw) k) = 1"
    by code_simp
  have d: "CHR ''|'' \<in> set ?dup \<and> CHR ''='' \<in> set ?dup"
    by simp
  have f: "fields_of_data (last_value (split_on CHR ''|'' ?dup))
            = Inr \<lparr>descripcion = ''a'', nro_serie = 2, id_producto = ''12'', lote = ''b'',
                   creacion = ''c'', vencimiento = ''d''\<rparr>"
    by code_simp
  have 1: "parse_qr_payload ?raw' = parse_qr_payload ?raw"
    using segment_order_irrelevant [of ?raw' ?raw] m o by blast
  have 2: "parse_qr_payload ?dup = fields_of_data (last_value (split_on CHR ''|'' ?dup))"
    using segment_order_irrelevant [of ?dup ?dup] d by blast
  show ?thesis
    using 1 2 f by simp
qed

section \<open>The generator and the decoder\<close>

declare decimal.simps [simp del]

lemma is_digit_not_punct:
  assumes "is_digit c"
  shows "c \<noteq> CHR ''|''" "c \<noteq> CHR ''-''" "c \<noteq> CHR ''+''" "c \<noteq> CHR ''_''" "\<not> is_space c"
  using assms by (auto simp: is_digit_def is_space_def)

lemma int_digits_all_digits_gen:
  "\<forall>c\<in>set ds. is_digit c \<Longrightarrow>
     int_digits b acc ds =
       (if ds = [] \<and> \<not> b then None
        else Some (foldl (\<lambda>a c. a * 10 + int (digit_val c)) acc ds))"
  by (induction ds arbitrary: b acc) simp_all

lemma int_digits_all_digits:
  "ds \<noteq> [] \<Longrightarrow> \<forall>c\<in>set ds. is_digit c \<Longrightarrow>
     int_digits b acc ds = Some (foldl (\<lambda>a c. a * 10 + int (digit_val c)) acc ds)"
  by (simp add: int_digits_all_digits_gen)

lemma decimal_not_Nil [simp]: "decimal k \<noteq> []"
  by (subst decimal.simps) simp

lemma decimal_digits: "\<forall>c\<in>set (decimal k). is_digit c"
proof (induction k rule: decimal.induct)
  case (1 n)
  show ?case
  proof (cases "n < 10")
    case True
    then show ?thesis
      by (subst decimal.simps) (simp add: digit_char_props(1))
  next
    case False
    then have "\<forall>c\<in>set (decimal (n div 10)). is_digit c" using 1 by simp
    moreover have "is_digit (digit_char (n mod 10))"
      by (simp add: digit_char_props(1))
    ultimately show ?thesis
      using False by (subst decimal.simps) simp
  qed
qed

lemma decimal_value: "foldl (\<lambda>a c. a * 10 + int (digit_val c)) 0 (decimal k) = int k"
proof (induction k rule: decimal.induct)
  case (1 n)
  show ?case
  proof (cases "n < 10")
    case True
    then show ?thesis
      by (subst decimal.simps) (simp add: digit_char_props(2))
  next
    case False
    then have "foldl (\<lambda>a c. a * 10 + int (digit_val c)) 0 (decimal (n div 10)) = int (n div 10)"
      using 1 by simp
    moreover have "digit_val (digit_char (n mod 10)) = n mod 10"
      by (simp add: digit_char_props(2))
    ultimately show ?thesis
      using False by (subst decimal.simps) (simp add: zdiv_int zmod_int)
  qed
qed

lemma zero_is_digit: "is_digit CHR ''0''" "digit_val CHR ''0'' = 0"
  by (simp_all add: is_digit_def digit_val_def)

lemma zeros_value:
  "foldl (\<lambda>a c. a * 10 + int (digit_val c)) 0 (replicate j CHR ''0'' @ ds)
     = foldl (\<lambda>a c. a * 10 + int (digit_val c)) 0 ds"
  by (induction j) (simp_all add: zero_is_digit)

lemma padded_digits:
  "int_digits False 0 (replicate j CHR ''0'' @ decimal k) = Some (int k)"
proof -
  have "\<forall>c\<in>set (replicate j CHR ''0'' @ decimal k). is_digit c"
    using decimal_digits [of k] by (auto simp: zero_is_digit)
  then have "int_digits False 0 (replicate j CHR ''0'' @ decimal k)
        = Some (foldl (\<lambda>a c. a * 10 + int (digit_val c)) 0 (replicate j CHR ''0'' @ decimal k))"
    by (intro int_digits_all_digits) simp_all
  then show ?thesis
    by (simp only: zeros_value decimal_value)
qed

lemma padded_all_digits: "\<forall>c\<in>set (replicate j CHR ''0'' @ decimal k). is_digit c"
  using decimal_digits [of k] by (auto simp: zero_is_digit)

lemma strip_digits:
  assumes "\<forall>c\<in>set s. is_digit c \<or> c = CHR ''-''"
  shows "strip s = s"
proof (cases s)
  case Nil
  then show ?thesis by simp
next
  case (Cons x xs)
  have "\<forall>c\<in>set s. \<not> is_space c"
    using assms is_digit_not_punct(5) by auto
  moreover have "hd s \<in> set s" "last s \<in> set s"
    using Cons by simp_all
  ultimately show ?thesis
    by (intro strip_id) blast
qed

lemma py_int_format_06d: "py_int (format_06d n) = Some n"
proof (cases "n < 0")
  case True
  let ?ds = "replicate (5 - length (decimal (nat (- n)))) CHR ''0'' @ decimal (nat (- n))"
  have f: "format_06d n = CHR ''-'' # ?ds"
    using True by (simp add: format_06d_def)
  have "\<forall>c\<in>set (CHR ''-'' # ?ds). is_digit c \<or> c = CHR ''-''"
    using padded_all_digits by auto
  then have s: "int_strip (CHR ''-'' # ?ds) = CHR ''-'' # ?ds"
    by (intro int_strip_id strip_digits)
  have "int_digits False 0 ?ds = Some (int (nat (- n)))"
    by (rule padded_digits)
  then show ?thesis
    using True by (simp add: py_int_def f s)
next
  case False
  let ?ds = "replicate (6 - length (decimal (nat n))) CHR ''0'' @ decimal (nat n)"
  have f: "format_06d n = ?ds"
    using False by (simp add: format_06d_def)
  have d: "\<forall>c\<in>set ?ds. is_digit c"
    by (rule padded_all_digits)
  then have s: "int_strip ?ds = ?ds"
    by (intro int_strip_id strip_digits) blast
  have v: "int_digits False 0 ?ds = Some (int (nat n))"
    by (rule padded_digits)
  obtain c cs where c: "?ds = c # cs"
    by (cases ?ds) simp_all
  then have "is_digit c" using d by (metis list.set_intros(1))
  then have "c \<noteq> CHR ''-''" "c \<noteq> CHR ''+''"
    by (simp_all add: is_digit_not_punct)
  then have "py_int ?ds = int_digits False 0 ?ds"
    unfolding py_int_def s by (simp add: c)
  then show ?thesis
    using False by (simp add: f v)
qed

lemma format_06d_chars: "\<forall>c\<in>set (format_06d n). is_digit c \<or> c = CHR ''-''"
  using padded_all_digits by (auto simp: format_06d_def)


lemma two_digits_chars: "n < 100 \<Longrightarrow> \<forall>c\<in>set (two_digits n). is_digit c"
proof -
  assume "n < 100"
  then have "n div 10 < 10" "n mod 10 < 10" by simp_all
  then show ?thesis
    by (simp add: two_digits_def digit_char_props(1))
qed

lemma isoformat_chars:
  assumes "y < 10000" "m < 100" "d < 100"
  shows "\<forall>c\<in>set (isoformat y m d). is_digit c \<or> c = CHR ''-''"
proof -
  have "y div 1000 < 10" "y div 100 mod 10 < 10" "y div 10 mod 10 < 10" "y mod 10 < 10"
    using assms(1) by simp_all
  then show ?thesis
    using two_digits_chars [OF assms(2)] two_digits_chars [OF assms(3)]
    by (auto simp: isoformat_def digit_char_props(1))
qed

lemma clean_text:
  assumes "\<forall>c\<in>set s. is_digit c \<or> c = CHR ''-''"
  shows "CHR ''|'' \<notin> set s" "strip s = s"
  using assms is_digit_not_punct(1) strip_digits by auto

lemma strftime_Ymd_chars:
  assumes "valid_date f"
  shows "\<forall>c\<in>set (strftime_Ymd f). is_digit c \<or> c = CHR ''-''"
proof -
  obtain y m d where f: "f = (y, m, d)" by (cases f)
  have "d \<le> 31" using assms days_in_month_le [of y m] by (simp add: valid_date_def f)
  then have "y < 10000" "m < 100" "d < 100"
    using assms by (simp_all add: valid_date_def f)
  then show ?thesis
    by (simp add: f strftime_Ymd_def isoformat_chars)
qed

lemma strftime_Ymd_plus_chars:
  assumes "valid_date f"
  shows "\<forall>c\<in>set (strftime_Ymd (plus_six_months f)). is_digit c \<or> c = CHR ''-''"
proof -
  obtain y m d where f: "f = (y, m, d)" by (cases f)
  obtain y' m' d' where p: "plus_six_months f = (y', m', d')" by (cases "plus_six_months f")
  have "d \<le> 31" using assms days_in_month_le [of y m] by (simp add: valid_date_def f)
  then have "y' < 10000" "m' < 100" "d' < 100"
    using assms p by (auto simp: f plus_six_months_def valid_date_def Let_def split: if_splits)
  then show ?thesis
    by (simp add: p strftime_Ymd_def isoformat_chars)
qed

lemma strftime_dmy_chars:
  assumes "valid_date f"
  shows "\<forall>c\<in>set (strftime_dmy f). is_digit c \<or> c = CHR ''-''"
proof -
  obtain y m d where f: "f = (y, m, d)" by (cases f)
  have "d \<le> 31" using assms days_in_month_le [of y m] by (simp add: valid_date_def f)
  then have "d < 100" "m < 100"
    using assms by (simp_all add: valid_date_def f)
  then show ?thesis
    using two_digits_chars [of d] two_digits_chars [of m] two_digits_chars [of "y mod 100"]
    by (auto simp: f strftime_dmy_def)
qed

lemma isoformat_not_Nil [simp]: "isoformat y m d \<noteq> []"
  by (simp add: isoformat_def)

lemma strftime_not_Nil [simp]: "strftime_Ymd f \<noteq> []" "strftime_dmy f \<noteq> []"
  by (cases f; simp add: strftime_Ymd_def strftime_dmy_def two_digits_def)+

lemma format_06d_not_Nil [simp]: "format_06d n \<noteq> []"
  by (simp add: format_06d_def)

lemma desc_clean_no_bar: "CHR ''|'' \<notin> set (desc_clean desc)"
proof -
  let ?r = "replace_char CHR ''='' CHR ''-''
              (replace_char CHR ''|'' CHR ''/'' (replace_char LF CHR '' '' desc))"
  have "CHR ''|'' \<notin> set ?r"
    by (auto simp: replace_char_def)
  then have "CHR ''|'' \<notin> set (strip ?r)"
    using set_strip_subset by blast
  moreover have "set (take 90 (strip ?r)) \<subseteq> set (strip ?r)"
    by (rule set_take_subset)
  ultimately show ?thesis
    by (auto simp: desc_clean_def Let_def)
qed

lemma split_six:
  assumes "c \<notin> set a1" "c \<notin> set a2" "c \<notin> set a3" "c \<notin> set a4" "c \<notin> set a5" "c \<notin> set a6"
  shows "split_on c (a1 @ c # a2 @ c # a3 @ c # a4 @ c # a5 @ c # a6) = [a1, a2, a3, a4, a5, a6]"
  using assms by (simp add: split_on_append_sep split_on_absent del: split_on.simps)

lemma kv_update_key:
  assumes "CHR ''='' \<notin> set k"
  shows "kv_update data (k @ CHR ''='' # v) = data(strip k \<mapsto> strip v)"
  using assms
  by (simp add: kv_update_def before_first_def after_first_def takeWhile_append dropWhile_append)

lemma strip_keys:
  "strip ''NS'' = ''NS''" "strip ''PRD'' = ''PRD''" "strip ''DSC'' = ''DSC''"
  "strip ''LOT'' = ''LOT''" "strip ''FEC'' = ''FEC''" "strip ''VTO'' = ''VTO''"
  by code_simp+

lemma build_data_six:
  "build_data [''NS'' @ CHR ''='' # ns, ''PRD'' @ CHR ''='' # prd, ''DSC'' @ CHR ''='' # dsc,
               ''LOT'' @ CHR ''='' # lot, ''FEC'' @ CHR ''='' # fec, ''VTO'' @ CHR ''='' # vto]
     = [''NS'' \<mapsto> strip ns, ''PRD'' \<mapsto> strip prd, ''DSC'' \<mapsto> strip dsc,
        ''LOT'' \<mapsto> strip lot, ''FEC'' \<mapsto> strip fec, ''VTO'' \<mapsto> strip vto]"
proof -
  have k: "kv_update data (''NS'' @ CHR ''='' # v) = data(''NS'' \<mapsto> strip v)"
    "kv_update data (''PRD'' @ CHR ''='' # v) = data(''PRD'' \<mapsto> strip v)"
    "kv_update data (''DSC'' @ CHR ''='' # v) = data(''DSC'' \<mapsto> strip v)"
    "kv_update data (''LOT'' @ CHR ''='' # v) = data(''LOT'' \<mapsto> strip v)"
    "kv_update data (''FEC'' @ CHR ''='' # v) = data(''FEC'' \<mapsto> strip v)"
    "kv_update data (''VTO'' @ CHR ''='' # v) = data(''VTO'' \<mapsto> strip v)" for data v
    by (subst kv_update_key; simp add: strip_keys)+
  show ?thesis
    unfolding build_data_def foldl.simps k ..
qed

lemma fields_of_data_six:
  assumes "ns \<noteq> []" "prd \<noteq> []" "dsc \<noteq> []" "lot \<noteq> []" "fec \<noteq> []" "vto \<noteq> []"
    and "py_int ns = Some n"
  shows "fields_of_data [''NS'' \<mapsto> ns, ''PRD'' \<mapsto> prd, ''DSC'' \<mapsto> dsc,
                          ''LOT'' \<mapsto> lot, ''FEC'' \<mapsto> fec, ''VTO'' \<mapsto> vto]
         = Inr \<lparr>descripcion = dsc, nro_serie = n, id_producto = prd, lote = lot,
                creacion = fec, vencimiento = vto\<rparr>"
  using assms by (simp add: fields_of_data_def required_def is_missing_def)


text \<open>
  C4, as the code has it. Take a payload the generator emits on a calendar date, for any
  serial number, in which the product id is non-empty, has no bar and no whitespace
  around it, and the sanitised description (after the cut to 90 characters) is non-empty
  and has no whitespace at its end. Decoding it succeeds and gives back the generator's
  fields: \<open>nro_serie\<close> is the serial number, \<open>descripcion\<close> the sanitised description, and
  \<open>id_producto\<close>, \<open>lote\<close>, \<open>creacion\<close> and \<open>vencimiento\<close> the texts put into the payload.
\<close>

theorem generator_roundtrip:
  assumes date: "valid_date fecha"
    and idp: "id_prod \<noteq> []" "strip id_prod = id_prod" "CHR ''|'' \<notin> set id_prod"
    and dsc: "desc_clean desc \<noteq> []" "strip (desc_clean desc) = desc_clean desc"
  shows "parse_qr_payload (payload_qr id_prod desc nro fecha)
           = Inr \<lparr>descripcion = desc_clean desc, nro_serie = nro, id_producto = id_prod,
                  lote = strftime_dmy fecha, creacion = strftime_Ymd fecha,
                  vencimiento = strftime_Ymd (plus_six_months fecha)\<rparr>"
proof -
  let ?ns = "format_06d nro" and ?dc = "desc_clean desc" and ?lot = "strftime_dmy fecha"
  let ?fec = "strftime_Ymd fecha" and ?vto = "strftime_Ymd (plus_six_months fecha)"
  let ?segs = "[''NS'' @ CHR ''='' # ?ns, ''PRD'' @ CHR ''='' # id_prod, ''DSC'' @ CHR ''='' # ?dc,
                ''LOT'' @ CHR ''='' # ?lot, ''FEC'' @ CHR ''='' # ?fec, ''VTO'' @ CHR ''='' # ?vto]"
  have ns: "CHR ''|'' \<notin> set ?ns" "strip ?ns = ?ns"
    using clean_text [OF format_06d_chars] by simp_all
  have lot: "CHR ''|'' \<notin> set ?lot" "strip ?lot = ?lot"
    using clean_text [OF strftime_dmy_chars [OF date]] by simp_all
  have fec: "CHR ''|'' \<notin> set ?fec" "strip ?fec = ?fec"
    using clean_text [OF strftime_Ymd_chars [OF date]] by simp_all
  have vto: "CHR ''|'' \<notin> set ?vto" "strip ?vto = ?vto"
    using clean_text [OF strftime_Ymd_plus_chars [OF date]] by simp_all
  have dc: "CHR ''|'' \<notin> set ?dc"
    by (rule desc_clean_no_bar)
  have p: "payload_qr id_prod desc nro fecha
             = (''NS'' @ CHR ''='' # ?ns) @ CHR ''|'' # (''PRD'' @ CHR ''='' # id_prod) @ CHR ''|'' #
               (''DSC'' @ CHR ''='' # ?dc) @ CHR ''|'' # (''LOT'' @ CHR ''='' # ?lot) @ CHR ''|'' #
               (''FEC'' @ CHR ''='' # ?fec) @ CHR ''|'' # (''VTO'' @ CHR ''='' # ?vto)"
    by (simp add: payload_qr_def)
  have sp: "split_on CHR ''|'' (payload_qr id_prod desc nro fecha) = ?segs"
    unfolding p using ns(1) idp(3) dc lot(1) fec(1) vto(1)
    by (intro split_six) simp_all
  have prim: "CHR ''|'' \<in> set (payload_qr id_prod desc nro fecha)"
    "CHR ''='' \<in> set (payload_qr id_prod desc nro fecha)"
    by (simp_all add: payload_qr_def)
  have "parse_qr_payload (payload_qr id_prod desc nro fecha)
          = fields_of_data (last_value (split_on CHR ''|'' (payload_qr id_prod desc nro fecha)))"
    using prim by (rule parse_qr_payload_primary)
  also have "\<dots> = fields_of_data (build_data ?segs)"
    by (simp only: sp build_data_eq_last_value)
  also have "\<dots> = fields_of_data [''NS'' \<mapsto> ?ns, ''PRD'' \<mapsto> id_prod, ''DSC'' \<mapsto> ?dc,
                          ''LOT'' \<mapsto> ?lot, ''FEC'' \<mapsto> ?fec, ''VTO'' \<mapsto> ?vto]"
    by (simp only: build_data_six ns(2) idp(2) dsc(2) lot(2) fec(2) vto(2))
  also have "\<dots> = Inr \<lparr>descripcion = ?dc, nro_serie = nro, id_producto = id_prod,
                  lote = ?lot, creacion = ?fec, vencimiento = ?vto\<rparr>"
    using idp(1) dsc(1) by (intro fields_of_data_six) (simp_all add: py_int_format_06d)
  finally show ?thesis .
qed


theorem generator_roundtrip_witness:
  "payload_qr ''12'' ''Bolsa 5kg'' 42 (2026, 2, 9)
     = ''NS=000042|PRD=12|DSC=Bolsa 5kg|LOT=090226|FEC=2026-02-09|VTO=2026-08-09''
   \<and> parse_qr_payload ''NS=000042|PRD=12|DSC=Bolsa 5kg|LOT=090226|FEC=2026-02-09|VTO=2026-08-09''
     = Inr \<lparr>descripcion = ''Bolsa 5kg'', nro_serie = 42, id_producto = ''12'',
            lote = ''090226'', creacion = ''2026-02-09'', vencimiento = ''2026-08-09''\<rparr>"
proof -
  have v: "valid_date (2026, 2, 9)" by code_simp
  have i: "''12'' \<noteq> []" "strip ''12'' = ''12''" "CHR ''|'' \<notin> set ''12''" by code_simp+
  have d: "desc_clean ''Bolsa 5kg'' \<noteq> []"
    "strip (desc_clean ''Bolsa 5kg'') = desc_clean ''Bolsa 5kg''"
    by code_simp+
  have p: "payload_qr ''12'' ''Bolsa 5kg'' 42 (2026, 2, 9)
     = ''NS=000042|PRD=12|DSC=Bolsa 5kg|LOT=090226|FEC=2026-02-09|VTO=2026-08-09''"
    by code_simp
  have e: "desc_clean ''Bolsa 5kg'' = ''Bolsa 5kg''" "strftime_dmy (2026, 2, 9) = ''090226''"
    "strftime_Ymd (2026, 2, 9) = ''2026-02-09''"
    "strftime_Ymd (plus_six_months (2026, 2, 9)) = ''2026-08-09''"
    by code_simp+
  show ?thesis
    using generator_roundtrip [OF v i d, of 42] unfolding p e by (simp add: p)
qed

text \<open>
  A product whose description is blank: the generator emits a payload with an empty
  \<open>DSC\<close>, which the decoder refuses.
\<close>

theorem generator_blank_description_counterexample:
  "payload_qr ''12'' '' '' 1 (2026, 2, 9) = ''NS=000001|PRD=12|DSC=|LOT=090226|FEC=2026-02-09|VTO=2026-08-09''
   \<and> parse_qr_payload (payload_qr ''12'' '' '' 1 (2026, 2, 9)) = Inl (MissingFields [''DSC''])"
  by code_simp

text \<open>
  The cut to 90 characters comes after \<open>strip\<close>, so it can leave a space at the end of the
  description, which the decoder then removes.
\<close>

lemma generator_cut_leaves_trailing_space:
  "desc_clean (replicate 89 CHR ''a'' @ '' b'') = replicate 89 CHR ''a'' @ '' ''
   \<and> parse_qr_payload (payload_qr ''12'' (replicate 89 CHR ''a'' @ '' b'') 1 (2026, 2, 9))
     = Inr \<lparr>descripcion = replicate 89 CHR ''a'', nro_serie = 1, id_producto = ''12'',
            lote = ''090226'', creacion = ''2026-02-09'', vencimiento = ''2026-08-09''\<rparr>"
  by code_simp

section \<open>Outcomes of the decoder\<close>

text \<open>
  Every call of the decoder ends in one of six ways: a record with all six fields filled,
  one of the four failures of the specification, or \<open>IndexError\<close>. The key/value format
  never ends in \<open>IndexError\<close>.
\<close>

lemma pick_error: "pick lines p = Inl e \<Longrightarrow> e = IndexError"
  by (induction lines) (auto split: if_splits)

lemma or_else_error:
  "or_else a b = Inl e \<Longrightarrow> a = Inl e \<or> b = Inl e"
  by (auto simp: or_else_def split: sum.splits if_splits)

lemma legacy_ns_error: "legacy_ns lines = Inl e \<Longrightarrow> e = IndexError"
  unfolding legacy_ns_def by (blast dest: or_else_error pick_error)

lemma legacy_cre_error: "legacy_cre lines = Inl e \<Longrightarrow> e = IndexError"
  unfolding legacy_cre_def by (blast dest: or_else_error pick_error)

lemma legacy_cre_stripped: "legacy_cre lines = Inr (Some v) \<Longrightarrow> strip v = v"
  unfolding legacy_cre_def by (blast dest: or_else_stripped pick_stripped)

lemma normalize_date_not_Nil: "strip s = s \<Longrightarrow> s \<noteq> [] \<Longrightarrow> normalize_date s \<noteq> []"
  by (auto simp: normalize_date_def isoformat_def split: option.splits)

lemma fields_of_data_outcomes:
  "(\<exists>r. fields_of_data data = Inr r \<and> descripcion r \<noteq> [] \<and> id_producto r \<noteq> []
        \<and> lote r \<noteq> [] \<and> creacion r \<noteq> [] \<and> vencimiento r \<noteq> [])
   \<or> (\<exists>ks. fields_of_data data = Inl (MissingFields ks))
   \<or> (\<exists>s. fields_of_data data = Inl (InvalidSerial s))"
proof (cases "filter (is_missing data) required = []")
  case False
  then show ?thesis by (simp add: fields_of_data_def)
next
  case True
  then have "\<forall>k\<in>set required. \<not> is_missing data k"
    by (simp add: filter_empty_conv)
  then have "the (data ''DSC'') \<noteq> []" "the (data ''PRD'') \<noteq> []" "the (data ''LOT'') \<noteq> []"
    "the (data ''FEC'') \<noteq> []" "the (data ''VTO'') \<noteq> []"
    by (auto simp: required_def is_missing_def split: option.splits)
  then show ?thesis
    using True by (cases "py_int (the (data ''NS''))") (simp_all add: fields_of_data_def)
qed

lemma parse_legacy_Inl:
  "parse_legacy raw = Inl e \<Longrightarrow>
     e = LegacyFieldsMissing \<or> (\<exists>s. e = InvalidSerial s) \<or> e = IndexError"
  by (auto simp: parse_legacy_def Let_def split: sum.splits if_splits option.splits
           dest: legacy_ns_error pick_error legacy_cre_error)

lemma parse_legacy_Inr_fields:
  assumes "parse_legacy raw = Inr r"
  shows "descripcion r \<noteq> [] \<and> id_producto r \<noteq> [] \<and> lote r \<noteq> []
           \<and> creacion r \<noteq> [] \<and> vencimiento r \<noteq> []"
proof -
  let ?lines = "legacy_lines raw"
  from assms obtain ns prd lot cre vto where ok: "legacy_ns ?lines = Inr ns"
      "pick ?lines ''ID producto'' = Inr prd" "pick ?lines ''Lote'' = Inr lot"
      "legacy_cre ?lines = Inr cre" "pick ?lines ''Vencimiento'' = Inr vto"
    by (auto simp: parse_legacy_def Let_def split: sum.splits)
  from assms ok have t: "truthy ns \<and> truthy prd \<and> truthy lot \<and> truthy cre \<and> truthy vto"
    by (auto simp: parse_legacy_def Let_def split: if_splits)
  then obtain c v p l where s: "cre = Some c" "c \<noteq> []" "vto = Some v" "v \<noteq> []"
      "prd = Some p" "p \<noteq> []" "lot = Some l" "l \<noteq> []"
    by (auto simp: truthy_def split: option.splits)
  have "strip c = c" "strip v = v"
    using ok(4,5) s legacy_cre_stripped pick_stripped by blast+
  then have "normalize_date c \<noteq> []" "normalize_date v \<noteq> []"
    using s by (simp_all add: normalize_date_not_Nil)
  then show ?thesis
    using assms ok t s
    by (auto simp: parse_legacy_def Let_def split: if_splits option.splits)
qed

lemma parse_legacy_outcomes:
  "(\<exists>r. parse_legacy raw = Inr r \<and> descripcion r \<noteq> [] \<and> id_producto r \<noteq> []
        \<and> lote r \<noteq> [] \<and> creacion r \<noteq> [] \<and> vencimiento r \<noteq> [])
   \<or> parse_legacy raw = Inl LegacyFieldsMissing
   \<or> (\<exists>s. parse_legacy raw = Inl (InvalidSerial s))
   \<or> parse_legacy raw = Inl IndexError"
proof (cases "parse_legacy raw")
  case (Inl e)
  then show ?thesis using parse_legacy_Inl [OF Inl] by auto
next
  case (Inr r)
  then show ?thesis using parse_legacy_Inr_fields [OF Inr] by simp
qed

lemma decode_outcomes:
  "(\<exists>r. parse_qr_payload raw = Inr r \<and> descripcion r \<noteq> [] \<and> id_producto r \<noteq> []
        \<and> lote r \<noteq> [] \<and> creacion r \<noteq> [] \<and> vencimiento r \<noteq> [])
   \<or> parse_qr_payload raw = Inl UnrecognizedFormat
   \<or> (\<exists>ks. parse_qr_payload raw = Inl (MissingFields ks))
   \<or> (\<exists>s. parse_qr_payload raw = Inl (InvalidSerial s))
   \<or> parse_qr_payload raw = Inl LegacyFieldsMissing
   \<or> parse_qr_payload raw = Inl IndexError"
proof (cases "CHR ''|'' \<in> set (strip raw) \<and> CHR ''='' \<in> set (strip raw)")
  case True
  then have "parse_qr_payload raw = fields_of_data (build_data (split_on CHR ''|'' (strip raw)))"
    by (simp add: parse_qr_payload_def parse_primary_def Let_def)
  then show ?thesis
    using fields_of_data_outcomes [of "build_data (split_on CHR ''|'' (strip raw))"] by auto
next
  case False
  show ?thesis
  proof (cases "LF \<in> set (strip raw)")
    case True
    then have "parse_qr_payload raw = parse_legacy (strip raw)"
      using False by (auto simp: parse_qr_payload_def Let_def)
    then show ?thesis
      using parse_legacy_outcomes [of "strip raw"] by auto
  next
    case nl: False
    then have "parse_qr_payload raw = Inl UnrecognizedFormat"
      using False by (auto simp: parse_qr_payload_def Let_def)
    then show ?thesis by simp
  qed
qed

lemma primary_never_IndexError:
  "CHR ''|'' \<in> set raw \<Longrightarrow> CHR ''='' \<in> set raw \<Longrightarrow> parse_qr_payload raw \<noteq> Inl IndexError"
  using fields_of_data_outcomes [of "last_value (split_on CHR ''|'' raw)"]
  by (auto simp: parse_qr_payload_primary)

text \<open>
  C2. A label in the old format in which the line of one field has lost its colon: the
  decoder stops with \<open>IndexError\<close>, which is none of the four failures of the
  specification.
\<close>

theorem legacy_line_without_colon:
  "parse_qr_payload
     (''Detergente X'' @ [LF] @ ''N'' @ [CHR 0xB0] @ '' de serie: 000002'' @ [LF]
      @ ''ID producto: 7'' @ [LF] @ ''Lote 100125'' @ [LF]
      @ ''Creaci'' @ [CHR 0xF3] @ ''n: 10/01/25'' @ [LF] @ ''Vencimiento: 10/07/25'')
   = Inl IndexError"
  by code_simp

subsection \<open>Choice of the format\<close>

text \<open>
  C3, as the code has it. The format is chosen on the input with its surrounding
  whitespace removed. An input with both a bar and an equals sign is decoded as key/value
  text; otherwise, an input that still has a newline after the whitespace around it is
  removed is decoded in the old format; every other input, the empty string among them,
  is refused as unrecognised, and no input that one of the two formats takes is.
\<close>

theorem format_selection_on_stripped_input:
  "parse_qr_payload raw =
     (if CHR ''|'' \<in> set raw \<and> CHR ''='' \<in> set raw then parse_primary (strip raw)
      else if LF \<in> set (strip raw) then parse_legacy (strip raw)
      else Inl UnrecognizedFormat)
   \<and> (parse_qr_payload raw = Inl UnrecognizedFormat \<longleftrightarrow>
        \<not> (CHR ''|'' \<in> set raw \<and> CHR ''='' \<in> set raw) \<and> LF \<notin> set (strip raw))
   \<and> parse_qr_payload [] = Inl UnrecognizedFormat"
proof -
  have sel: "parse_qr_payload raw =
     (if CHR ''|'' \<in> set raw \<and> CHR ''='' \<in> set raw then parse_primary (strip raw)
      else if LF \<in> set (strip raw) then parse_legacy (strip raw)
      else Inl UnrecognizedFormat)"
    by (simp add: parse_qr_payload_def Let_def set_strip)
  have p: "parse_primary (strip raw) \<noteq> Inl UnrecognizedFormat"
    using fields_of_data_outcomes [of "build_data (split_on CHR ''|'' (strip raw))"]
    by (auto simp: parse_primary_def)
  have l: "parse_legacy (strip raw) \<noteq> Inl UnrecognizedFormat"
    using parse_legacy_Inl [of "strip raw" UnrecognizedFormat] by auto
  have iff: "parse_qr_payload raw = Inl UnrecognizedFormat \<longleftrightarrow>
        \<not> (CHR ''|'' \<in> set raw \<and> CHR ''='' \<in> set raw) \<and> LF \<notin> set (strip raw)"
    unfolding sel using p l by auto
  have "parse_qr_payload [] = Inl UnrecognizedFormat"
    by (simp add: parse_qr_payload_def)
  with sel iff show ?thesis by blast
qed

theorem format_selection_on_stripped_input_witness:
  "parse_qr_payload (''a'' @ [LF] @ ''b'') = parse_legacy (''a'' @ [LF] @ ''b'') \<and>
   parse_qr_payload '' a|b=c '' = parse_primary ''a|b=c'' \<and>
   parse_qr_payload ''abc'' = Inl UnrecognizedFormat"
proof -
  have s: "strip (''a'' @ [LF] @ ''b'') = ''a'' @ [LF] @ ''b''" "strip '' a|b=c '' = ''a|b=c''"
    "strip ''abc'' = ''abc''"
    by code_simp+
  show ?thesis
    using format_selection_on_stripped_input [of "''a'' @ [LF] @ ''b''"]
      format_selection_on_stripped_input [of "'' a|b=c ''"]
      format_selection_on_stripped_input [of "''abc''"]
    unfolding s by simp
qed

text \<open>
  The claim as it is written fails on an input whose only newline is at its end: it has a
  newline and no bar, yet it is refused as unrecognised, which the old format's branch
  never does.
\<close>

theorem format_selection_counterexample:
  "LF \<in> set (''x'' @ [LF]) \<and> CHR ''|'' \<notin> set (''x'' @ [LF]) \<and>
   parse_qr_payload (''x'' @ [LF]) = Inl UnrecognizedFormat \<and>
   parse_legacy (''x'' @ [LF]) = Inl LegacyFieldsMissing \<and>
   parse_legacy (strip (''x'' @ [LF])) = Inl LegacyFieldsMissing"
  by code_simp

end
